theory Spec2Isabelle
  imports Main "HOL-Library.Multiset"
begin

section \<open>Data model (migrator.go)\<close>

text \<open>
  \<^verbatim>\<open>type Direction uint8\<close> with the two constants \<^verbatim>\<open>Up = 1\<close> and \<^verbatim>\<open>Down = 2\<close>
  is used as an enumeration.
\<close>

datatype Direction = Up | Down

text \<open>
  Go errors as values. \<open>ExternalError\<close> is an error handed back by a collaborator
  (a \<^verbatim>\<open>Migration\<close>, the \<^verbatim>\<open>Provider\<close>, the \<^verbatim>\<open>Database\<close>, the file system or the SQL
  driver), identified by its message. The other constructors are the errors the repository
  builds itself with \<^verbatim>\<open>xerrors.New\<close>; those that wrap a cause carry it.
\<close>

datatype error =
    ExternalError string
  | UnableToLoadSnapshot int error
  | UnableToLoadUp int error
  | UnableToLoadDown int error
  | UnableToPreparePlan error
  | InvalidFileName

text \<open>
  The \<^verbatim>\<open>Migration\<close> interface: \<^verbatim>\<open>Version\<close> never fails, \<^verbatim>\<open>Up\<close>, \<^verbatim>\<open>Down\<close> and
  \<^verbatim>\<open>Snapshot\<close> return \<^verbatim>\<open>(string, error)\<close>. A migration is modelled by what its four
  methods return. The fields carry the prefix \<open>m\<close> because \<open>Up\<close> and \<open>Down\<close> are
  also the names of the two directions.
\<close>

record Migration =
  mVersion :: int
  mUp :: "error + string"
  mDown :: "error + string"
  mSnapshot :: "error + string"

record Action =
  Version :: int
  Migration :: string
  Direction :: Direction

section \<open>Library functions of Go used by the planner\<close>

text \<open>
  \<^verbatim>\<open>sort.Search(n, f)\<close>: the binary search of Go's standard library,
  \<^verbatim>\<open>i, j := 0, n; for i < j { h := int(uint(i+j) >> 1); if !f(h) { i = h + 1 } else { j = h } }; return i\<close>.
\<close>

function Search_loop :: "(nat \<Rightarrow> bool) \<Rightarrow> nat \<Rightarrow> nat \<Rightarrow> nat" where
  "Search_loop f i j =
     (if i < j then
        (let h = (i + j) div 2 in
         if \<not> f h then Search_loop f (h + 1) j else Search_loop f i h)
      else i)"
  by pat_completeness auto
termination
  by (relation "measure (\<lambda>(f, i, j). j - i)") auto

definition Search :: "nat \<Rightarrow> (nat \<Rightarrow> bool) \<Rightarrow> nat" where
  "Search n f = Search_loop f 0 n"

text \<open>\<^verbatim>\<open>sort.SearchInts(a, x)\<close> is \<^verbatim>\<open>sort.Search(len(a), func(i int) bool { return a[i] >= x })\<close>.\<close>

definition SearchInts :: "int list \<Rightarrow> int \<Rightarrow> nat" where
  "SearchInts a x = Search (length a) (\<lambda>i. a ! i \<ge> x)"

section \<open>The planner: \<^verbatim>\<open>Migrator.plan\<close>\<close>

text \<open>
  The ``migrate up'' loop of \<^verbatim>\<open>plan\<close> (\<^verbatim>\<open>for _, pm := range provList\<close>), as a recursion
  over the part of \<open>provList\<close> still to visit, with the slice \<open>actions\<close> as accumulator.
  \<open>ver\<close> is the parameter \<^verbatim>\<open>version\<close> of the source. \<^verbatim>\<open>break\<close> returns the accumulator,
  \<^verbatim>\<open>continue\<close> is the recursive call, \<^verbatim>\<open>return nil, err\<close> is \<open>Inl\<close>.
\<close>

fun plan_up :: "int list \<Rightarrow> int \<Rightarrow> Migration list \<Rightarrow> Action list \<Rightarrow> error + Action list" where
  "plan_up dbList ver [] actions = Inr actions"
| "plan_up dbList ver (pm # rest) actions =
     (if mVersion pm > ver then Inr actions
      else
        (let idx = SearchInts dbList (mVersion pm) in
         if idx \<ge> length dbList \<or> dbList ! idx \<noteq> mVersion pm then
           (if length dbList = 0 then
              (case mSnapshot pm of
                 Inl err \<Rightarrow> Inl (UnableToLoadSnapshot (mVersion pm) err)
               | Inr snap \<Rightarrow>
                   if length snap > 0 then
                     plan_up dbList ver rest
                       [\<lparr>Version = mVersion pm, Migration = snap, Direction = Up\<rparr>]
                   else
                     (case mUp pm of
                        Inl err \<Rightarrow> Inl (UnableToLoadUp (mVersion pm) err)
                      | Inr u \<Rightarrow>
                          plan_up dbList ver rest
                            (actions @ [\<lparr>Version = mVersion pm, Migration = u, Direction = Up\<rparr>])))
            else
              (case mUp pm of
                 Inl err \<Rightarrow> Inl (UnableToLoadUp (mVersion pm) err)
               | Inr u \<Rightarrow>
                   plan_up dbList ver rest
                     (actions @ [\<lparr>Version = mVersion pm, Migration = u, Direction = Up\<rparr>])))
         else plan_up dbList ver rest []))"

text \<open>
  The search of the ``migrate down'' loop and the test that follows it:
  \<^verbatim>\<open>idx := sort.Search(len(provList), func(i int) bool { return provList[i].Version(ctx) >= v })\<close>
  and \<^verbatim>\<open>idx < len(provList) && provList[idx].Version(ctx) == v\<close>. The result is
  \<^verbatim>\<open>provList[idx]\<close> when the test succeeds.
\<close>

definition SearchVersion :: "Migration list \<Rightarrow> int \<Rightarrow> Migration option" where
  "SearchVersion provList v =
     (let idx = Search (length provList) (\<lambda>i. mVersion (provList ! i) \<ge> v) in
      if idx < length provList \<and> mVersion (provList ! idx) = v then Some (provList ! idx)
      else None)"

text \<open>
  The ``migrate down'' loop (\<^verbatim>\<open>for i := len(dbList) - 1; i >= 0; i--\<close>), as a recursion over
  the applied versions still to visit, highest index first: the caller passes
  \<open>rev dbList\<close>.
\<close>

fun plan_down :: "Migration list \<Rightarrow> int \<Rightarrow> int list \<Rightarrow> Action list \<Rightarrow> error + Action list" where
  "plan_down provList ver [] actions = Inr actions"
| "plan_down provList ver (v # vs) actions =
     (if v \<le> ver then Inr actions
      else
        (case SearchVersion provList v of
           Some pm \<Rightarrow>
             (case mDown pm of
                Inl err \<Rightarrow> Inl (UnableToLoadDown (mVersion pm) err)
              | Inr d \<Rightarrow>
                  plan_down provList ver vs
                    (actions @ [\<lparr>Version = mVersion pm, Migration = d, Direction = Down\<rparr>]))
         | None \<Rightarrow> plan_down provList ver vs actions))"

text \<open>
  \<^verbatim>\<open>plan\<close> itself. The two collaborators are represented by what their \<^verbatim>\<open>List\<close> methods
  return: \<open>prov\<close> for \<^verbatim>\<open>m.prov.List(ctx)\<close> and \<open>db\<close> for \<^verbatim>\<open>m.db.List(ctx)\<close>.
  \<^verbatim>\<open>sort.Ints\<close> is \<open>sort\<close>. \<^verbatim>\<open>sort.Slice\<close> with the comparison of versions is
  \<open>sort_key mVersion\<close>: when the versions are pairwise distinct there is only one sorted
  order; among equal versions Go leaves the order to the algorithm, which is an insertion
  sort (keeping the listed order, as \<open>sort_key\<close> does) for slices of at most 12 elements.
  Versions are only compared, never computed with, so \<open>int\<close> stands for Go's \<^verbatim>\<open>int\<close>.
\<close>

definition plan :: "error + Migration list \<Rightarrow> error + int list \<Rightarrow> int \<Rightarrow> error + Action list" where
  "plan prov db ver =
     (case prov of
        Inl err \<Rightarrow> Inl err
      | Inr provList0 \<Rightarrow>
          if length provList0 = 0 then Inr []
          else
            (let provList = sort_key mVersion provList0 in
             case db of
               Inl err \<Rightarrow> Inl err
             | Inr dbList0 \<Rightarrow>
                 (let dbList = sort dbList0;
                      latest = (if length dbList > 0 then dbList ! (length dbList - 1) else 0)
                  in
                  case (if ver > latest then plan_up dbList ver provList [] else Inr []) of
                    Inl err \<Rightarrow> Inl err
                  | Inr actions \<Rightarrow>
                      if ver < latest then plan_down provList ver (rev dbList) actions
                      else Inr actions)))"

text \<open>\<^verbatim>\<open>Migrator.Plan\<close>: \<^verbatim>\<open>plan\<close> with its error wrapped.\<close>

definition Plan :: "error + Migration list \<Rightarrow> error + int list \<Rightarrow> int \<Rightarrow> error + Action list" where
  "Plan prov db ver =
     (case plan prov db ver of
        Inl err \<Rightarrow> Inl (UnableToPreparePlan err)
      | Inr a \<Rightarrow> Inr a)"

text \<open>
  \<^verbatim>\<open>Migrator.CurrentVersion\<close> and \<^verbatim>\<open>Migrator.LatestVersion\<close> on a successfully listed
  collaborator: the loop \<^verbatim>\<open>latest := 0; for ... { if v > latest { latest = v } }\<close>.
\<close>

definition CurrentVersion :: "int list \<Rightarrow> int" where
  "CurrentVersion list = fold (\<lambda>v latest. if v > latest then v else latest) list 0"

definition LatestVersion :: "Migration list \<Rightarrow> int" where
  "LatestVersion list = fold (\<lambda>m latest. if mVersion m > latest then mVersion m else latest) list 0"

section \<open>The executor: \<^verbatim>\<open>SQLDatabase\<close> (database.go)\<close>

text \<open>
  The four calls of \<^verbatim>\<open>ExecContext\<close> in database.go: the statement of an action
  (\<^verbatim>\<open>action.Migration\<close>), \<^verbatim>\<open>insertMigrationSQL\<close> and \<^verbatim>\<open>deleteMigrationSQL\<close> with the
  version as argument, and \<^verbatim>\<open>createTableSQL\<close>. The time stamp \<^verbatim>\<open>time.Now()\<close> of the insert
  is left out: no version depends on it.
\<close>

datatype query =
    Statement string
  | InsertMigration int
  | DeleteMigration int
  | CreateTable

text \<open>
  How a call ends: it returns an error value (\<open>None\<close> for \<^verbatim>\<open>nil\<close>), or it panics with a
  value, and the panic goes on to the caller unless a deferred function recovers it.
\<close>

datatype outcome =
    Returns "error option"
  | Panics string

text \<open>
  The SQL handle (\<^verbatim>\<open>sqldb\<close>) belongs to Go's \<^verbatim>\<open>database/sql\<close> and its driver, not to this
  repository; it is a parameter of the model. \<open>'d\<close> is the state of the database behind
  the handle.
  \<^item> \<open>exec q d\<close> is \<^verbatim>\<open>ExecContext\<close>: the state after the call and how the call ends
    (a failed call may have changed the state, for instance when a statement text holds
    several SQL statements).
  \<^item> \<open>beginTx\<close> is \<open>None\<close> when the handle has no \<^verbatim>\<open>BeginTx\<close> method (the type assertion
    \<^verbatim>\<open>sqldb.(sqldbBeginTx)\<close> fails); otherwise it tells how \<^verbatim>\<open>BeginTx\<close> ends in a state.
  \<^item> \<open>commit d\<close> tells how \<^verbatim>\<open>tx.Commit()\<close> ends for the pending state \<open>d\<close>.
  A transaction works on a pending copy of the state: a successful commit makes it the
  state of the database; \<^verbatim>\<open>tx.Rollback()\<close>, and a commit that fails, leave the state as it
  was when the transaction began. \<^verbatim>\<open>Rollback\<close> is taken not to panic; the code drops the
  error it returns.
\<close>

record 'd driver =
  exec :: "query \<Rightarrow> 'd \<Rightarrow> 'd \<times> outcome"
  beginTx :: "('d \<Rightarrow> outcome) option"
  commit :: "'d \<Rightarrow> outcome"

text \<open>
  \<^verbatim>\<open>transaction(ctx, sqldb, fn)\<close>. In the source the variable \<^verbatim>\<open>err\<close> of
  \<^verbatim>\<open>tx, err := sqldb.BeginTx(ctx, nil)\<close> shadows the named result \<^verbatim>\<open>err\<close>, and the
  deferred function reads and writes that inner variable.
  \<^item> \<^verbatim>\<open>BeginTx\<close> is called before the deferred function is set up: its error is returned,
    its panic goes on to the caller.
  \<^item> When \<open>fn\<close> returns an error, \<^verbatim>\<open>return err\<close> sets the result, and the deferred
    function rolls back; the error of the rollback is appended to the inner variable and
    never reaches the caller.
  \<^item> When \<open>fn\<close> panics, the deferred function recovers the panic, stores it in the inner
    variable and rolls back. No \<^verbatim>\<open>return\<close> has run, so the named result still holds
    \<^verbatim>\<open>nil\<close>, and that is what \<^verbatim>\<open>transaction\<close> returns. The same happens when
    \<^verbatim>\<open>tx.Commit()\<close> panics.
  \<^item> When \<open>fn\<close> returns \<^verbatim>\<open>nil\<close>, the result is what \<^verbatim>\<open>tx.Commit()\<close> returns; the inner
    variable is \<^verbatim>\<open>nil\<close>, so the deferred function does not roll back.
  \<^item> Without \<^verbatim>\<open>BeginTx\<close>, \<open>fn\<close> runs on the handle itself and nothing is recovered.
\<close>

definition transaction :: "'d driver \<Rightarrow> 'd \<Rightarrow> ('d \<Rightarrow> 'd \<times> outcome) \<Rightarrow> 'd \<times> outcome" where
  "transaction drv d fn =
     (case beginTx drv of
        Some begin \<Rightarrow>
          (case begin d of
             Panics v \<Rightarrow> (d, Panics v)
           | Returns (Some err) \<Rightarrow> (d, Returns (Some err))
           | Returns None \<Rightarrow>
               (case fn d of
                  (d', Panics v) \<Rightarrow> (d, Returns None)
                | (d', Returns (Some err)) \<Rightarrow> (d, Returns (Some err))
                | (d', Returns None) \<Rightarrow>
                    (case commit drv d' of
                       Panics v \<Rightarrow> (d, Returns None)
                     | Returns (Some err) \<Rightarrow> (d, Returns (Some err))
                     | Returns None \<Rightarrow> (d', Returns None))))
      | None \<Rightarrow> fn d)"

text \<open>
  \<^verbatim>\<open>SQLDatabase.up\<close> and \<^verbatim>\<open>SQLDatabase.down\<close>: the second call of \<^verbatim>\<open>ExecContext\<close> is
  reached only when the first returns \<^verbatim>\<open>nil\<close>.
\<close>

definition SQLDatabase_up :: "'d driver \<Rightarrow> Action \<Rightarrow> 'd \<Rightarrow> 'd \<times> outcome" where
  "SQLDatabase_up drv action d =
     transaction drv d (\<lambda>db.
       case exec drv (Statement (Migration action)) db of
         (db', Returns None) \<Rightarrow> exec drv (InsertMigration (Version action)) db'
       | (db', r) \<Rightarrow> (db', r))"

definition SQLDatabase_down :: "'d driver \<Rightarrow> Action \<Rightarrow> 'd \<Rightarrow> 'd \<times> outcome" where
  "SQLDatabase_down drv action d =
     transaction drv d (\<lambda>db.
       case exec drv (Statement (Migration action)) db of
         (db', Returns None) \<Rightarrow> exec drv (DeleteMigration (Version action)) db'
       | (db', r) \<Rightarrow> (db', r))"

text \<open>The struct \<^verbatim>\<open>SQLDatabase\<close>; the field \<open>sqldb\<close> holds the state behind the handle.\<close>

record 'd SQLDatabase =
  sqldb :: 'd
  inited :: bool

text \<open>\<^verbatim>\<open>SQLDatabase.init\<close>: the flag is set before the table is created.\<close>

definition SQLDatabase_init :: "'d driver \<Rightarrow> 'd SQLDatabase \<Rightarrow> 'd SQLDatabase \<times> outcome" where
  "SQLDatabase_init drv s =
     (if inited s then (s, Returns None)
      else
        (case exec drv CreateTable (sqldb s) of
           (d', r) \<Rightarrow> (\<lparr>sqldb = d', inited = True\<rparr>, r)))"

text \<open>
  The loop of \<^verbatim>\<open>SQLDatabase.Migrate\<close> (\<^verbatim>\<open>for _, action := range actions\<close>) and
  \<^verbatim>\<open>Migrate\<close> itself. The result is the state the call leaves and how it ends: the loop
  goes on to the next action when \<^verbatim>\<open>up\<close> or \<^verbatim>\<open>down\<close> returns \<^verbatim>\<open>nil\<close>, returns the
  error otherwise, and a panic that \<^verbatim>\<open>transaction\<close> lets through ends \<^verbatim>\<open>Migrate\<close> too.
  The directions are the two that a plan contains.
\<close>

fun Migrate_loop :: "'d driver \<Rightarrow> 'd SQLDatabase \<Rightarrow> Action list \<Rightarrow> 'd SQLDatabase \<times> outcome" where
  "Migrate_loop drv s [] = (s, Returns None)"
| "Migrate_loop drv s (action # actions) =
     (case (case Direction action of
              Up \<Rightarrow> SQLDatabase_up drv action (sqldb s)
            | Down \<Rightarrow> SQLDatabase_down drv action (sqldb s)) of
        (d', Returns None) \<Rightarrow> Migrate_loop drv (s\<lparr>sqldb := d'\<rparr>) actions
      | (d', r) \<Rightarrow> (s\<lparr>sqldb := d'\<rparr>, r))"

definition SQLDatabase_Migrate :: "'d driver \<Rightarrow> 'd SQLDatabase \<Rightarrow> Action list \<Rightarrow> 'd SQLDatabase \<times> outcome" where
  "SQLDatabase_Migrate drv s actions =
     (case SQLDatabase_init drv s of
        (s', Returns None) \<Rightarrow> Migrate_loop drv s' actions
      | (s', r) \<Rightarrow> (s', r))"

text \<open>
  An in-memory database for running the executor: the rows of the table \<^verbatim>\<open>migrations\<close>
  (their versions) and the statements that took effect, in order. \<open>fails\<close> tells which
  calls of \<^verbatim>\<open>ExecContext\<close> return an error and \<open>panics\<close> which of them panic; such a call
  changes nothing. The insert and the delete do what \<^verbatim>\<open>insertMigrationSQL\<close> and
  \<^verbatim>\<open>deleteMigrationSQL\<close> say. \<^verbatim>\<open>BeginTx\<close>, when the handle has it, and \<^verbatim>\<open>Commit\<close> succeed.
\<close>

record memdb =
  rows :: "int list"
  effects :: "string list"

definition mem_exec :: "(query \<Rightarrow> bool) \<Rightarrow> (query \<Rightarrow> bool) \<Rightarrow> query \<Rightarrow> memdb \<Rightarrow> memdb \<times> outcome" where
  "mem_exec fails panics q d =
     (if panics q then (d, Panics ''driver panic'')
      else if fails q then (d, Returns (Some (ExternalError ''exec failed'')))
      else
        (case q of
           Statement text \<Rightarrow> (d\<lparr>effects := effects d @ [text]\<rparr>, Returns None)
         | InsertMigration v \<Rightarrow> (d\<lparr>rows := rows d @ [v]\<rparr>, Returns None)
         | DeleteMigration v \<Rightarrow> (d\<lparr>rows := removeAll v (rows d)\<rparr>, Returns None)
         | CreateTable \<Rightarrow> (d, Returns None)))"

definition mem_driver :: "bool \<Rightarrow> (query \<Rightarrow> bool) \<Rightarrow> (query \<Rightarrow> bool) \<Rightarrow> memdb driver" where
  "mem_driver tx fails panics =
     \<lparr>exec = mem_exec fails panics,
      beginTx = (if tx then Some (\<lambda>d. Returns None) else None),
      commit = (\<lambda>d. Returns None)\<rparr>"

text \<open>
  The applied versions after a plan has been carried out without failure: every forward
  action inserts its version, every backward action deletes it.
\<close>

definition applied_after :: "int list \<Rightarrow> Action list \<Rightarrow> int list" where
  "applied_after dbList actions =
     fold (\<lambda>a vs. case Direction a of Up \<Rightarrow> vs @ [Version a] | Down \<Rightarrow> removeAll (Version a) vs)
       actions dbList"

section \<open>The file-based provider (provider.go)\<close>

text \<open>
  Library functions of Go, for the arguments the provider passes.
  \<^verbatim>\<open>path.Base\<close>: the empty path gives \<^verbatim>\<open>"."\<close>; trailing slashes are removed; what follows
  the last slash is kept; a path of slashes only gives \<^verbatim>\<open>"/"\<close>.
\<close>

definition Base :: "string \<Rightarrow> string" where
  "Base path =
     (if path = [] then ''.''
      else
        (let p = rev (dropWhile (\<lambda>c. c = CHR ''/'') (rev path));
             q = rev (takeWhile (\<lambda>c. c \<noteq> CHR ''/'') (rev p))
         in if q = [] then ''/'' else q))"

text \<open>
  \<^verbatim>\<open>path.Join(dir, name)\<close> for a directory path and the name of one of its entries, as
  \<^verbatim>\<open>ReadDir\<close> returns it: not empty, without slash. An empty directory path is ignored.
  \<^verbatim>\<open>path.Join\<close> also cleans the result, which can rewrite the directory part only and
  leaves the last element, from which the version is read, as it is.
\<close>

definition Join :: "string \<Rightarrow> string \<Rightarrow> string" where
  "Join dir name = (if dir = [] then name else dir @ ''/'' @ name)"

text \<open>\<^verbatim>\<open>strings.Split(s, sep)\<close> for a separator of one character.\<close>

fun Split_from :: "char \<Rightarrow> string \<Rightarrow> string \<Rightarrow> string list" where
  "Split_from sep cur [] = [rev cur]"
| "Split_from sep cur (c # cs) =
     (if c = sep then rev cur # Split_from sep [] cs else Split_from sep (c # cur) cs)"

definition Split :: "string \<Rightarrow> char \<Rightarrow> string list" where
  "Split s sep = Split_from sep [] s"

text \<open>
  \<^verbatim>\<open>strings.SplitN(s, sep, n)\<close> for a separator of one character and \<open>n \<ge> 0\<close>: at most
  \<open>n\<close> pieces, the last one the unsplit rest.
\<close>

fun SplitN :: "string \<Rightarrow> char \<Rightarrow> nat \<Rightarrow> string list" where
  "SplitN s sep 0 = []"
| "SplitN s sep (Suc 0) = [s]"
| "SplitN s sep (Suc (Suc n)) =
     (case dropWhile (\<lambda>c. c \<noteq> sep) s of
        [] \<Rightarrow> [s]
      | _ # rest \<Rightarrow> takeWhile (\<lambda>c. c \<noteq> sep) s # SplitN rest sep (Suc n))"

text \<open>
  \<^verbatim>\<open>strconv.Atoi\<close> with a 64-bit \<^verbatim>\<open>int\<close>: an optional sign, then one or more decimal
  digits, and a value that fits; anything else is an error.
\<close>

definition isDigit :: "char \<Rightarrow> bool" where
  "isDigit c = (48 \<le> (of_char c :: int) \<and> (of_char c :: int) \<le> 57)"

fun digits_value :: "int \<Rightarrow> string \<Rightarrow> int" where
  "digits_value n [] = n"
| "digits_value n (c # cs) = digits_value (n * 10 + (of_char c - 48)) cs"

definition Atoi :: "string \<Rightarrow> int option" where
  "Atoi s =
     (case s of
        [] \<Rightarrow> None
      | c # cs \<Rightarrow>
          (let ds = (if c = CHR ''-'' \<or> c = CHR ''+'' then cs else s) in
           if ds = [] \<or> \<not> list_all isDigit ds then None
           else
             (let n = digits_value 0 ds;
                  v = (if c = CHR ''-'' then - n else n)
              in if - (2 ^ 63) \<le> v \<and> v \<le> 2 ^ 63 - 1 then Some v else None)))"

text \<open>\<^verbatim>\<open>parseFileName\<close>; \<open>None\<close> is the result \<^verbatim>\<open>(0, false)\<close>.\<close>

definition parseFileName :: "string \<Rightarrow> int option" where
  "parseFileName filepath =
     (let p = Split (Base filepath) (CHR ''.'') in
      if length p \<noteq> 2 \<or> p ! 1 \<noteq> ''sql'' then None
      else
        (case Atoi (SplitN (p ! 0) (CHR ''_'') 2 ! 0) of
           None \<Rightarrow> None
         | Some v \<Rightarrow> Some v))"

text \<open>
  A directory entry (\<^verbatim>\<open>fs.DirEntry\<close>) and the struct \<^verbatim>\<open>fileMigration\<close>, whose file system
  handle is left out. \<^verbatim>\<open>List\<close> creates it with the path and the version only.
\<close>

record DirEntry =
  Name :: string
  IsDir :: bool

record fileMigration =
  filepath :: string
  version :: int
  isRead :: bool
  up :: string
  down :: string
  snapshot :: string

text \<open>
  The loop of \<^verbatim>\<open>FilesystemProvider.List\<close> over the entries of the directory, and
  \<^verbatim>\<open>List\<close> itself; \<open>readDir\<close> is what \<^verbatim>\<open>p.fs.ReadDir(p.path)\<close> returns.
\<close>

fun List_loop :: "string \<Rightarrow> DirEntry list \<Rightarrow> fileMigration list \<Rightarrow> error + fileMigration list" where
  "List_loop path [] ms = Inr ms"
| "List_loop path (e # dir) ms =
     (if IsDir e then List_loop path dir ms
      else
        (let fp = Join path (Name e) in
         case parseFileName fp of
           None \<Rightarrow> Inl InvalidFileName
         | Some v \<Rightarrow>
             List_loop path dir
               (ms @ [\<lparr>filepath = fp, version = v, isRead = False,
                        up = [], down = [], snapshot = []\<rparr>])))"

definition FilesystemProvider_List :: "string \<Rightarrow> error + DirEntry list \<Rightarrow> error + fileMigration list" where
  "FilesystemProvider_List path readDir =
     (case readDir of
        Inl err \<Rightarrow> Inl err
      | Inr dir \<Rightarrow> List_loop path dir [])"

section \<open>Notions used in the statements\<close>

text \<open>
  The migration of the tests (\<^verbatim>\<open>testMigration\<close> in migrator_test.go): its methods return
  its fields and never fail; a field that is not set is the empty string.
\<close>

definition testMigration :: "int \<Rightarrow> string \<Rightarrow> string \<Rightarrow> string \<Rightarrow> Migration" where
  "testMigration v u d s = \<lparr>mVersion = v, mUp = Inr u, mDown = Inr d, mSnapshot = Inr s\<rparr>"

text \<open>The highest applied version, 0 when nothing is applied.\<close>

definition latest_applied :: "int list \<Rightarrow> int" where
  "latest_applied dbList = (if dbList = [] then 0 else Max (set dbList))"

text \<open>
  One iteration of the ``migrate up'' loop for a migration \<open>pm\<close> that is not beyond the
  target: the new value of \<open>actions\<close>, or the error returned. It is used to reason about
  \<open>plan_up\<close>, which is shown to iterate it.
\<close>

definition up_step :: "int list \<Rightarrow> Migration \<Rightarrow> Action list \<Rightarrow> error + Action list" where
  "up_step dbList pm actions =
     (let idx = SearchInts dbList (mVersion pm) in
      if idx \<ge> length dbList \<or> dbList ! idx \<noteq> mVersion pm then
        (if length dbList = 0 then
           (case mSnapshot pm of
              Inl err \<Rightarrow> Inl (UnableToLoadSnapshot (mVersion pm) err)
            | Inr snap \<Rightarrow>
                if length snap > 0 then
                  Inr [\<lparr>Version = mVersion pm, Migration = snap, Direction = Up\<rparr>]
                else
                  (case mUp pm of
                     Inl err \<Rightarrow> Inl (UnableToLoadUp (mVersion pm) err)
                   | Inr u \<Rightarrow>
                       Inr (actions @ [\<lparr>Version = mVersion pm, Migration = u, Direction = Up\<rparr>])))
         else
           (case mUp pm of
              Inl err \<Rightarrow> Inl (UnableToLoadUp (mVersion pm) err)
            | Inr u \<Rightarrow>
                Inr (actions @ [\<lparr>Version = mVersion pm, Migration = u, Direction = Up\<rparr>])))
      else Inr [])"

text \<open>
  What one iteration of the loop of \<^verbatim>\<open>SQLDatabase.Migrate\<close> does with an action: the
  \<^verbatim>\<open>switch\<close> on its direction.
\<close>

definition apply_action :: "'d driver \<Rightarrow> Action \<Rightarrow> 'd \<Rightarrow> 'd \<times> outcome" where
  "apply_action drv action d =
     (case Direction action of
        Up \<Rightarrow> SQLDatabase_up drv action d
      | Down \<Rightarrow> SQLDatabase_down drv action d)"

text \<open>The three forward actions used as an example for the executor.\<close>

definition example_actions :: "Action list" where
  "example_actions =
     [\<lparr>Version = 1, Migration = ''up1'', Direction = Up\<rparr>,
      \<lparr>Version = 2, Migration = ''up2'', Direction = Up\<rparr>,
      \<lparr>Version = 3, Migration = ''up3'', Direction = Up\<rparr>]"

section \<open>Binary search on sorted input\<close>

lemma Search_loop_inv:
  "(\<forall>a b. a \<le> b \<longrightarrow> b < n \<longrightarrow> f a \<longrightarrow> f b) \<Longrightarrow> i \<le> j \<Longrightarrow> j \<le> n \<Longrightarrow> (\<forall>k<i. \<not> f k) \<Longrightarrow> (j < n \<longrightarrow> f j) \<Longrightarrow>
         (\<forall>k < Search_loop f i j. \<not> f k) \<and> (Search_loop f i j < n \<longrightarrow> f (Search_loop f i j))
         \<and> Search_loop f i j \<le> n"
proof (induction f i j rule: Search_loop.induct)
  case (1 f i j)
  show ?case
  proof (cases "i < j")
    case False
    then have "Search_loop f i j = i" by simp
    moreover have "i = j" using False "1.prems"(2) by simp
    ultimately show ?thesis using "1.prems" by simp
  next
    case True
    define h where "h = (i + j) div 2"
    have hb: "i \<le> h" "h < j" using True by (simp_all add: h_def)
    show ?thesis
    proof (cases "f h")
      case fh: True
      have eq: "Search_loop f i j = Search_loop f i h"
        using True fh by (subst Search_loop.simps) (simp add: h_def Let_def)
      have "(\<forall>k < Search_loop f i h. \<not> f k) \<and> (Search_loop f i h < n \<longrightarrow> f (Search_loop f i h))
         \<and> Search_loop f i h \<le> n"
        unfolding h_def
      proof (rule "1.IH"(2)[OF True refl])
        show "\<not> \<not> f ((i + j) div 2)" using fh by (simp add: h_def)
        show "\<forall>a b. a \<le> b \<longrightarrow> b < n \<longrightarrow> f a \<longrightarrow> f b" by (rule "1.prems"(1))
        show "i \<le> (i + j) div 2" using hb by (simp add: h_def)
        show "(i + j) div 2 \<le> n" using hb "1.prems"(3) by (simp add: h_def)
        show "\<forall>k<i. \<not> f k" by (rule "1.prems"(4))
        show "(i + j) div 2 < n \<longrightarrow> f ((i + j) div 2)" using fh by (simp add: h_def)
      qed
      then show ?thesis unfolding eq .
    next
      case nfh: False
      have eq: "Search_loop f i j = Search_loop f (h + 1) j"
        using True nfh by (subst Search_loop.simps) (simp add: h_def Let_def)
      have below: "\<forall>k<h + 1. \<not> f k"
      proof (intro allI impI)
        fix k assume "k < h + 1"
        then have "k \<le> h" by simp
        moreover have "h < n" using hb "1.prems"(3) by simp
        ultimately show "\<not> f k" using "1.prems"(1) nfh by blast
      qed
      have "(\<forall>k < Search_loop f (h + 1) j. \<not> f k)
         \<and> (Search_loop f (h + 1) j < n \<longrightarrow> f (Search_loop f (h + 1) j))
         \<and> Search_loop f (h + 1) j \<le> n"
        unfolding h_def
      proof (rule "1.IH"(1)[OF True refl])
        show "\<not> f ((i + j) div 2)" using nfh by (simp add: h_def)
        show "\<forall>a b. a \<le> b \<longrightarrow> b < n \<longrightarrow> f a \<longrightarrow> f b" by (rule "1.prems"(1))
        show "(i + j) div 2 + 1 \<le> j" using hb by (simp add: h_def)
        show "j \<le> n" by (rule "1.prems"(3))
        show "\<forall>k<(i + j) div 2 + 1. \<not> f k" using below by (simp add: h_def)
        show "j < n \<longrightarrow> f j" by (rule "1.prems"(5))
      qed
      then show ?thesis unfolding eq .
    qed
  qed
qed

lemma Search_spec:
  assumes mono: "\<And>a b. a \<le> b \<Longrightarrow> b < n \<Longrightarrow> f a \<Longrightarrow> f b"
  shows "(\<forall>k < Search n f. \<not> f k) \<and> (Search n f < n \<longrightarrow> f (Search n f)) \<and> Search n f \<le> n"
proof -
  have m: "\<forall>a b. a \<le> b \<longrightarrow> b < n \<longrightarrow> f a \<longrightarrow> f b"
  proof (intro allI impI)
    fix a b assume "a \<le> b" "b < n" "f a"
    then show "f b" by (rule mono)
  qed
  have "(\<forall>k < Search_loop f 0 n. \<not> f k) \<and> (Search_loop f 0 n < n \<longrightarrow> f (Search_loop f 0 n))
         \<and> Search_loop f 0 n \<le> n"
    by (rule Search_loop_inv[OF m]) simp_all
  then show ?thesis unfolding Search_def .
qed

lemma SearchInts_sorted:
  assumes "sorted a"
  shows "(SearchInts a x \<ge> length a \<or> a ! SearchInts a x \<noteq> x) \<longleftrightarrow> x \<notin> set a"
proof -
  define r where "r = SearchInts a x"
  have mono: "\<And>i j. i \<le> j \<Longrightarrow> j < length a \<Longrightarrow> x \<le> a ! i \<Longrightarrow> x \<le> a ! j"
  proof -
    fix i j assume "i \<le> j" "j < length a" "x \<le> a ! i"
    then show "x \<le> a ! j" using sorted_nth_mono[OF assms, of i j] by linarith
  qed
  have spec: "(\<forall>k < r. \<not> x \<le> a ! k) \<and> (r < length a \<longrightarrow> x \<le> a ! r) \<and> r \<le> length a"
    unfolding r_def SearchInts_def by (rule Search_spec) (rule mono)
  have "x \<in> set a \<longleftrightarrow> (r < length a \<and> a ! r = x)"
  proof
    assume "x \<in> set a"
    then obtain k where k: "k < length a" "a ! k = x" by (auto simp: in_set_conv_nth)
    have "\<not> k < r" using spec k by auto
    then have "r \<le> k" by simp
    then have "r < length a" using k by simp
    moreover have "a ! r \<le> a ! k" by (rule sorted_nth_mono[OF assms \<open>r \<le> k\<close> k(1)])
    ultimately show "r < length a \<and> a ! r = x" using spec k by auto
  next
    assume "r < length a \<and> a ! r = x"
    then show "x \<in> set a" by auto
  qed
  then show ?thesis unfolding r_def by auto
qed

lemma SearchVersion_sorted:
  assumes "sorted (map mVersion ps)"
  shows "SearchVersion ps v = find (\<lambda>m. mVersion m = v) ps"
proof -
  define r where "r = Search (length ps) (\<lambda>i. mVersion (ps ! i) \<ge> v)"
  have nth: "\<And>i j. i \<le> j \<Longrightarrow> j < length ps \<Longrightarrow> mVersion (ps ! i) \<le> mVersion (ps ! j)"
  proof -
    fix i j assume "i \<le> j" "j < length ps"
    then show "mVersion (ps ! i) \<le> mVersion (ps ! j)"
      using sorted_nth_mono[OF assms, of i j] by simp
  qed
  have mono: "\<And>i j. i \<le> j \<Longrightarrow> j < length ps \<Longrightarrow> v \<le> mVersion (ps ! i) \<Longrightarrow> v \<le> mVersion (ps ! j)"
  proof -
    fix i j assume "i \<le> j" "j < length ps" "v \<le> mVersion (ps ! i)"
    then show "v \<le> mVersion (ps ! j)" using nth[of i j] by linarith
  qed
  have spec: "(\<forall>k < r. \<not> v \<le> mVersion (ps ! k)) \<and> (r < length ps \<longrightarrow> v \<le> mVersion (ps ! r)) \<and> r \<le> length ps"
    unfolding r_def by (rule Search_spec) (rule mono)
  show ?thesis
  proof (cases "r < length ps \<and> mVersion (ps ! r) = v")
    case True
    have "\<forall>j<r. \<not> mVersion (ps ! j) = v" using spec by auto
    with True have "\<exists>i<length ps. mVersion (ps ! i) = v \<and> ps ! r = ps ! i \<and> (\<forall>j<i. \<not> mVersion (ps ! j) = v)"
      by (intro exI[of _ r]) simp
    then have "find (\<lambda>m. mVersion m = v) ps = Some (ps ! r)"
      by (simp only: find_Some_iff)
    with True show ?thesis by (simp add: SearchVersion_def r_def[symmetric])
  next
    case False
    have "v \<notin> mVersion ` set ps"
    proof
      assume "v \<in> mVersion ` set ps"
      then obtain k where k: "k < length ps" "mVersion (ps ! k) = v"
        by (auto simp: in_set_conv_nth)
      have "\<not> k < r" using spec k by auto
      then have "r \<le> k" by simp
      then have "r < length ps" using k by simp
      moreover have "mVersion (ps ! r) \<le> mVersion (ps ! k)" by (rule nth[OF \<open>r \<le> k\<close> k(1)])
      ultimately have "r < length ps \<and> mVersion (ps ! r) = v" using spec k by auto
      with False show False by simp
    qed
    then have "find (\<lambda>m. mVersion m = v) ps = None"
      by (auto simp: find_None_iff)
    with False show ?thesis by (simp add: SearchVersion_def r_def[symmetric])
  qed
qed

lemma plan_up_Cons:
  "plan_up db ver (pm # rest) acc =
     (if mVersion pm > ver then Inr acc
      else (case up_step db pm acc of Inl err \<Rightarrow> Inl err | Inr acc' \<Rightarrow> plan_up db ver rest acc'))"
  by (simp add: up_step_def Let_def split: sum.splits)

lemma up_step_sorted:
  assumes "sorted db"
  shows "up_step db pm acc =
     (if mVersion pm \<notin> set db then
        (if db = [] then
           (case mSnapshot pm of
              Inl err \<Rightarrow> Inl (UnableToLoadSnapshot (mVersion pm) err)
            | Inr snap \<Rightarrow>
                if snap \<noteq> [] then Inr [\<lparr>Version = mVersion pm, Migration = snap, Direction = Up\<rparr>]
                else
                  (case mUp pm of
                     Inl err \<Rightarrow> Inl (UnableToLoadUp (mVersion pm) err)
                   | Inr u \<Rightarrow> Inr (acc @ [\<lparr>Version = mVersion pm, Migration = u, Direction = Up\<rparr>])))
         else
           (case mUp pm of
              Inl err \<Rightarrow> Inl (UnableToLoadUp (mVersion pm) err)
            | Inr u \<Rightarrow> Inr (acc @ [\<lparr>Version = mVersion pm, Migration = u, Direction = Up\<rparr>])))
      else Inr [])"
  using SearchInts_sorted[OF assms, of "mVersion pm"]
  by (simp add: up_step_def Let_def split: sum.splits)

lemma sort_key_eq_Nil [simp]: "sort_key f xs = [] \<longleftrightarrow> xs = []"
  by (metis length_0_conv length_sort)

lemmas up_step_sort = up_step_sorted[OF sorted_sort, unfolded set_sort sort_key_eq_Nil]

lemmas up_step_Nil = up_step_sorted[of "[]", simplified]

declare plan_up.simps(2) [simp del]

lemma plan_down_Cons_sorted:
  assumes "sorted (map mVersion ps)"
  shows "plan_down ps ver (v # vs) acc =
     (if v \<le> ver then Inr acc
      else
        (case find (\<lambda>m. mVersion m = v) ps of
           Some pm \<Rightarrow>
             (case mDown pm of
                Inl err \<Rightarrow> Inl (UnableToLoadDown v err)
              | Inr d \<Rightarrow>
                  plan_down ps ver vs (acc @ [\<lparr>Version = v, Migration = d, Direction = Down\<rparr>]))
         | None \<Rightarrow> plan_down ps ver vs acc))"
proof (cases "find (\<lambda>m. mVersion m = v) ps")
  case None
  then show ?thesis by (simp add: SearchVersion_sorted[OF assms])
next
  case (Some pm)
  then have "mVersion pm = v" by (auto simp: find_Some_iff)
  with Some show ?thesis by (simp add: SearchVersion_sorted[OF assms] split: sum.splits)
qed

declare plan_down.simps(2) [simp del]

lemma sorted_last_Max:
  fixes xs :: "int list"
  assumes "sorted xs" "xs \<noteq> []"
  shows "xs ! (length xs - 1) = Max (set xs)"
proof -
  have n: "length xs - 1 < length xs" using assms(2) by simp
  have "\<And>x. x \<in> set xs \<Longrightarrow> x \<le> xs ! (length xs - 1)"
  proof -
    fix x assume "x \<in> set xs"
    then obtain i where i: "i < length xs" "xs ! i = x" by (auto simp: in_set_conv_nth)
    then have "i \<le> length xs - 1" by simp
    from sorted_nth_mono[OF assms(1) this n] i show "x \<le> xs ! (length xs - 1)" by simp
  qed
  moreover have "xs ! (length xs - 1) \<in> set xs" using n by simp
  ultimately show ?thesis by (intro Max_eqI[symmetric]) auto
qed

lemma latest_sort:
  "(if length (sort db0) > 0 then sort db0 ! (length (sort db0) - 1) else 0) = latest_applied db0"
proof (cases "db0 = []")
  case True
  then show ?thesis by (simp add: latest_applied_def)
next
  case False
  then have "sort db0 \<noteq> []" by (metis length_0_conv length_sort)
  from sorted_last_Max[OF sorted_sort this] False show ?thesis
    by (simp add: latest_applied_def)
qed

lemma plan_unfold:
  "plan (Inr cat) (Inr db0) ver =
     (if cat = [] then Inr []
      else if ver > latest_applied db0 then plan_up (sort db0) ver (sort_key mVersion cat) []
      else if ver < latest_applied db0 then plan_down (sort_key mVersion cat) ver (rev (sort db0)) []
      else Inr [])"
  unfolding plan_def sum.case Let_def latest_sort
  by (simp split: sum.splits)

lemma plan_at_latest_applied: "plan (Inr cat) (Inr db0) (latest_applied db0) = Inr []"
  by (simp add: plan_unfold)

section \<open>Current and latest version\<close>

lemma fold_latest:
  "fold (\<lambda>v latest. if v > latest then v else latest) xs (a::int) =
     (if xs = [] then a else max a (Max (set xs)))"
proof (induction xs arbitrary: a)
  case Nil
  then show ?case by simp
next
  case (Cons x xs)
  show ?case
  proof (cases "xs = []")
    case True
    then show ?thesis by (simp add: max_def)
  next
    case False
    then show ?thesis by (simp add: Cons.IH max_def)
  qed
qed

lemma CurrentVersion_eq: "CurrentVersion dbList = max 0 (latest_applied dbList)"
  by (simp add: CurrentVersion_def fold_latest latest_applied_def)

lemma LatestVersion_eq:
  "LatestVersion provList = (if provList = [] then 0 else max 0 (Max (mVersion ` set provList)))"
proof -
  have "fold (\<lambda>m latest. if mVersion m > latest then mVersion m else latest) xs a =
        fold (\<lambda>v latest. if v > latest then v else latest) (map mVersion xs) a" for xs a
    by (induction xs arbitrary: a) simp_all
  then have "LatestVersion provList =
        fold (\<lambda>v latest. if v > latest then v else latest) (map mVersion provList) 0"
    by (simp add: LatestVersion_def)
  then show ?thesis by (simp add: fold_latest)
qed

lemma Plan_unfold:
  "Plan (Inr provList) (Inr dbList) ver =
     (case plan (Inr provList) (Inr dbList) ver of Inl err \<Rightarrow> Inl (UnableToPreparePlan err) | Inr a \<Rightarrow> Inr a)"
  by (simp add: Plan_def)

section \<open>The plan at the current version\<close>

text \<open>
  Claim C6. For every catalog and every list of applied versions, if the target equals the
  current version (the highest applied version, 0 when nothing is applied), planning returns
  the empty plan: neither loop of \<^verbatim>\<open>plan\<close> is entered. This holds for \<^verbatim>\<open>plan\<close> and for the
  exported \<^verbatim>\<open>Plan\<close>.
\<close>

theorem plan_empty_at_current_version:
  assumes "ver = latest_applied dbList"
  shows "plan (Inr provList) (Inr dbList) ver = Inr [] \<and> Plan (Inr provList) (Inr dbList) ver = Inr []"
  using assms by (simp add: Plan_def plan_unfold)

theorem plan_empty_at_current_version_witness:
  "plan (Inr [testMigration 1 ''up1'' ''down1'' [], testMigration 2 ''up2'' ''down2'' []]) (Inr [1, 2]) 2 = Inr []
   \<and> Plan (Inr [testMigration 1 ''up1'' ''down1'' [], testMigration 2 ''up2'' ''down2'' []]) (Inr [1, 2]) 2 = Inr []"
proof -
  have h: "(2::int) = latest_applied [1, 2]" by (simp add: latest_applied_def)
  show ?thesis by (rule plan_empty_at_current_version[OF h])
qed

text \<open>
  \<^verbatim>\<open>CurrentVersion\<close> starts its maximum at 0, so it is the highest applied version when no
  applied version is negative.
\<close>

lemma Plan_empty_at_CurrentVersion:
  assumes "\<forall>v\<in>set dbList. 0 \<le> v"
  shows "Plan (Inr provList) (Inr dbList) (CurrentVersion dbList) = Inr []"
proof -
  have "0 \<le> latest_applied dbList"
    using assms by (cases dbList) (auto simp: latest_applied_def Max_ge_iff)
  then have "CurrentVersion dbList = latest_applied dbList"
    by (simp add: CurrentVersion_eq)
  then show ?thesis by (simp add: Plan_def plan_unfold)
qed

section \<open>The forward walk\<close>

lemma plan_up_append:
  "\<forall>m\<in>set xs. mVersion m \<le> ver \<Longrightarrow>
   plan_up db ver (xs @ ys) acc =
     (case plan_up db ver xs acc of Inl err \<Rightarrow> Inl err | Inr a \<Rightarrow> plan_up db ver ys a)"
  by (induction xs arbitrary: acc) (simp_all add: plan_up_Cons split: sum.splits)

lemma sorted_catalog_prefix_le:
  assumes "sort_key mVersion provList = pre @ pm # post"
  shows "\<forall>m\<in>set pre. mVersion m \<le> mVersion pm"
proof -
  have "sorted (map mVersion (pre @ pm # post))"
    using sorted_sort_key[of mVersion provList] assms by simp
  then show ?thesis by (auto simp: sorted_append)
qed

lemma latest_applied_ge: "v \<in> set dbList \<Longrightarrow> v \<le> latest_applied dbList"
  by (auto simp: latest_applied_def)

section \<open>The snapshot shortcut\<close>

text \<open>
  Claim C2. Nothing is applied and the target is positive, so the forward walk runs. Let
  \<open>pm\<close> be a migration of the sorted catalog, after the migrations \<open>pre\<close> and before the
  migrations \<open>post\<close>, with a version that is not beyond the target and a snapshot that
  resolves to a non-empty text. Then, unless the walk has already failed on \<open>pre\<close>, the
  planner drops whatever it accumulated on \<open>pre\<close> and goes on over \<open>post\<close> with the single
  forward action that carries the snapshot at the version of \<open>pm\<close>; the loop does so
  from every accumulator. In particular the catalog \<open>{1:(up1, down1), 2:(up2, down2, snap2)}\<close>
  with nothing applied and target 2 gives the plan \<open>[(2, Up, snap2)]\<close>.
\<close>

theorem snapshot_replaces_accumulated_actions:
  assumes "sort_key mVersion provList = pre @ pm # post"
    and "mVersion pm \<le> ver" and "0 < ver"
    and "mSnapshot pm = Inr snap" and "snap \<noteq> []"
  shows "plan (Inr provList) (Inr []) ver =
           (case plan_up [] ver pre [] of
              Inl err \<Rightarrow> Inl err
            | Inr accumulated \<Rightarrow>
                plan_up [] ver post [\<lparr>Version = mVersion pm, Migration = snap, Direction = Up\<rparr>])
         \<and> (\<forall>accumulated. plan_up [] ver (pm # post) accumulated =
                plan_up [] ver post [\<lparr>Version = mVersion pm, Migration = snap, Direction = Up\<rparr>])
         \<and> plan (Inr [testMigration 1 ''up1'' ''down1'' [], testMigration 2 ''up2'' ''down2'' ''snap2''])
              (Inr []) 2 = Inr [\<lparr>Version = 2, Migration = ''snap2'', Direction = Up\<rparr>]"
proof (intro conjI allI)
  have step: "plan_up [] ver (pm # post) acc =
                plan_up [] ver post [\<lparr>Version = mVersion pm, Migration = snap, Direction = Up\<rparr>]" for acc
    using assms(2,4,5) by (simp add: plan_up_Cons up_step_Nil)
  show "plan_up [] ver (pm # post) accumulated =
          plan_up [] ver post [\<lparr>Version = mVersion pm, Migration = snap, Direction = Up\<rparr>]"
    for accumulated by (rule step)
  have ne: "provList \<noteq> []" using assms(1) by auto
  have pre: "\<forall>m\<in>set pre. mVersion m \<le> ver"
    using sorted_catalog_prefix_le[OF assms(1)] assms(2) by auto
  have "plan (Inr provList) (Inr []) ver = plan_up [] ver (pre @ pm # post) []"
    using ne assms(1,3) by (simp add: plan_unfold latest_applied_def)
  also have "\<dots> = (case plan_up [] ver pre [] of
              Inl err \<Rightarrow> Inl err
            | Inr accumulated \<Rightarrow>
                plan_up [] ver post [\<lparr>Version = mVersion pm, Migration = snap, Direction = Up\<rparr>])"
    by (simp only: plan_up_append[OF pre] step)
  finally show "plan (Inr provList) (Inr []) ver =
           (case plan_up [] ver pre [] of
              Inl err \<Rightarrow> Inl err
            | Inr accumulated \<Rightarrow>
                plan_up [] ver post [\<lparr>Version = mVersion pm, Migration = snap, Direction = Up\<rparr>])" .
  show "plan (Inr [testMigration 1 ''up1'' ''down1'' [], testMigration 2 ''up2'' ''down2'' ''snap2''])
              (Inr []) 2 = Inr [\<lparr>Version = 2, Migration = ''snap2'', Direction = Up\<rparr>]"
    by code_simp
qed

theorem snapshot_replaces_accumulated_actions_witness:
  "plan (Inr [testMigration 2 ''up2'' ''down2'' ''snap2'', testMigration 1 ''up1'' ''down1'' [],
              testMigration 3 ''up3'' ''down3'' []]) (Inr []) 3 =
     Inr [\<lparr>Version = 2, Migration = ''snap2'', Direction = Up\<rparr>,
          \<lparr>Version = 3, Migration = ''up3'', Direction = Up\<rparr>]"
proof -
  let ?m1 = "testMigration 1 ''up1'' ''down1'' []"
  let ?m2 = "testMigration 2 ''up2'' ''down2'' ''snap2''"
  let ?m3 = "testMigration 3 ''up3'' ''down3'' []"
  have h1: "sort_key mVersion [?m2, ?m1, ?m3] = [?m1] @ ?m2 # [?m3]"
    by (simp add: testMigration_def)
  have h2: "mVersion ?m2 \<le> 3" by (simp add: testMigration_def)
  have h3: "(0::int) < 3" by simp
  have h4: "mSnapshot ?m2 = Inr ''snap2''" by (simp add: testMigration_def)
  have h5: "''snap2'' \<noteq> []" by simp
  have pre: "plan_up [] 3 [?m1] [] = Inr [\<lparr>Version = 1, Migration = ''up1'', Direction = Up\<rparr>]"
    by code_simp
  have post: "plan_up [] 3 [?m3] [\<lparr>Version = mVersion ?m2, Migration = ''snap2'', Direction = Up\<rparr>] =
     Inr [\<lparr>Version = 2, Migration = ''snap2'', Direction = Up\<rparr>,
          \<lparr>Version = 3, Migration = ''up3'', Direction = Up\<rparr>]"
    by code_simp
  from snapshot_replaces_accumulated_actions[OF h1 h2 h3 h4 h5, THEN conjunct1]
  show ?thesis by (simp only: pre post sum.case)
qed

section \<open>The reset at an applied version\<close>

text \<open>
  Claim C3. The target is above the highest applied version, so the forward walk runs. Let
  \<open>pm\<close> be a migration of the sorted catalog, after \<open>pre\<close> and before \<open>post\<close>, whose version
  is applied. Then, unless the walk has already failed on \<open>pre\<close>, the planner drops
  whatever it accumulated on \<open>pre\<close> and goes on over \<open>post\<close> from the empty list; the loop
  does so from every accumulator. In particular the catalog \<open>{1, 2, 3, 4}\<close> with \<open>{1, 3}\<close>
  applied and target 4 gives the plan \<open>[(4, Up, up4)]\<close>.
\<close>

theorem applied_version_resets_accumulated_actions:
  assumes "sort_key mVersion provList = pre @ pm # post"
    and "mVersion pm \<in> set dbList" and "latest_applied dbList < ver"
  shows "plan (Inr provList) (Inr dbList) ver =
           (case plan_up (sort dbList) ver pre [] of
              Inl err \<Rightarrow> Inl err
            | Inr accumulated \<Rightarrow> plan_up (sort dbList) ver post [])
         \<and> (\<forall>accumulated. plan_up (sort dbList) ver (pm # post) accumulated =
                plan_up (sort dbList) ver post [])
         \<and> plan (Inr [testMigration 1 ''up1'' ''down1'' [], testMigration 2 ''up2'' ''down2'' [],
                      testMigration 3 ''up3'' ''down3'' [], testMigration 4 ''up4'' ''down4'' []])
              (Inr [1, 3]) 4 = Inr [\<lparr>Version = 4, Migration = ''up4'', Direction = Up\<rparr>]"
proof (intro conjI allI)
  have le: "mVersion pm \<le> ver"
    using latest_applied_ge[OF assms(2)] assms(3) by simp
  have step: "plan_up (sort dbList) ver (pm # post) acc = plan_up (sort dbList) ver post []" for acc
    using assms(2) le by (simp add: plan_up_Cons up_step_sort)
  show "plan_up (sort dbList) ver (pm # post) accumulated = plan_up (sort dbList) ver post []"
    for accumulated by (rule step)
  have ne: "provList \<noteq> []" using assms(1) by auto
  have pre: "\<forall>m\<in>set pre. mVersion m \<le> ver"
    using sorted_catalog_prefix_le[OF assms(1)] le by auto
  have "plan (Inr provList) (Inr dbList) ver = plan_up (sort dbList) ver (pre @ pm # post) []"
    using ne assms(1,3) by (simp add: plan_unfold)
  also have "\<dots> = (case plan_up (sort dbList) ver pre [] of
              Inl err \<Rightarrow> Inl err
            | Inr accumulated \<Rightarrow> plan_up (sort dbList) ver post [])"
    by (simp only: plan_up_append[OF pre] step)
  finally show "plan (Inr provList) (Inr dbList) ver =
           (case plan_up (sort dbList) ver pre [] of
              Inl err \<Rightarrow> Inl err
            | Inr accumulated \<Rightarrow> plan_up (sort dbList) ver post [])" .
  show "plan (Inr [testMigration 1 ''up1'' ''down1'' [], testMigration 2 ''up2'' ''down2'' [],
                      testMigration 3 ''up3'' ''down3'' [], testMigration 4 ''up4'' ''down4'' []])
              (Inr [1, 3]) 4 = Inr [\<lparr>Version = 4, Migration = ''up4'', Direction = Up\<rparr>]"
    by code_simp
qed

theorem applied_version_resets_accumulated_actions_witness:
  "plan (Inr [testMigration 1 ''up1'' ''down1'' [], testMigration 2 ''up2'' ''down2'' [],
              testMigration 3 ''up3'' ''down3'' [], testMigration 4 ''up4'' ''down4'' []])
        (Inr [3, 1]) 5 = Inr [\<lparr>Version = 4, Migration = ''up4'', Direction = Up\<rparr>]"
proof -
  let ?m1 = "testMigration 1 ''up1'' ''down1'' []"
  let ?m2 = "testMigration 2 ''up2'' ''down2'' []"
  let ?m3 = "testMigration 3 ''up3'' ''down3'' []"
  let ?m4 = "testMigration 4 ''up4'' ''down4'' []"
  have h1: "sort_key mVersion [?m1, ?m2, ?m3, ?m4] = [?m1, ?m2] @ ?m3 # [?m4]"
    by (simp add: testMigration_def)
  have h2: "mVersion ?m3 \<in> set [3, 1]" by (simp add: testMigration_def)
  have h3: "latest_applied [3, 1] < 5" by (simp add: latest_applied_def)
  have pre: "plan_up (sort [3, 1]) 5 [?m1, ?m2] [] = Inr [\<lparr>Version = 2, Migration = ''up2'', Direction = Up\<rparr>]"
    by code_simp
  have post: "plan_up (sort [3, 1]) 5 [?m4] [] = Inr [\<lparr>Version = 4, Migration = ''up4'', Direction = Up\<rparr>]"
    by code_simp
  from applied_version_resets_accumulated_actions[OF h1 h2 h3, THEN conjunct1]
  show ?thesis by (simp only: pre post sum.case)
qed

section \<open>What the two walks produce\<close>

lemma up_step_actions:
  assumes "up_step db pm acc = Inr acc'"
  shows "\<forall>a\<in>set acc'. a \<in> set acc \<or>
           (Direction a = Up \<and> Version a = mVersion pm \<and>
            (mSnapshot pm = Inr (Migration a) \<or> mUp pm = Inr (Migration a)))"
  using assms by (auto simp: up_step_def Let_def split: sum.splits if_splits)

lemma up_step_error:
  assumes "up_step db pm acc = Inl e"
  shows "(\<exists>err. mSnapshot pm = Inl err \<and> e = UnableToLoadSnapshot (mVersion pm) err) \<or>
         (\<exists>err. mUp pm = Inl err \<and> e = UnableToLoadUp (mVersion pm) err)"
  using assms by (auto simp: up_step_def Let_def split: sum.splits if_splits)

lemma plan_up_actions:
  "plan_up db ver ms acc = Inr P \<Longrightarrow>
   \<forall>a\<in>set P. a \<in> set acc \<or>
     (Direction a = Up \<and> Version a \<le> ver \<and>
      (\<exists>m\<in>set ms. Version a = mVersion m \<and>
         (mSnapshot m = Inr (Migration a) \<or> mUp m = Inr (Migration a))))"
proof (induction ms arbitrary: acc)
  case Nil
  then show ?case by simp
next
  case (Cons pm ms)
  show ?case
  proof (cases "mVersion pm > ver")
    case True
    with Cons.prems show ?thesis by (simp add: plan_up_Cons)
  next
    case False
    with Cons.prems obtain acc' where s: "up_step db pm acc = Inr acc'"
      and r: "plan_up db ver ms acc' = Inr P"
      by (auto simp: plan_up_Cons split: sum.splits)
    from Cons.IH[OF r] up_step_actions[OF s] False show ?thesis
      by (auto; metis)
  qed
qed

lemma plan_up_error:
  "plan_up db ver ms acc = Inl e \<Longrightarrow>
   \<exists>m\<in>set ms. (\<exists>err. mSnapshot m = Inl err \<and> e = UnableToLoadSnapshot (mVersion m) err) \<or>
               (\<exists>err. mUp m = Inl err \<and> e = UnableToLoadUp (mVersion m) err)"
proof (induction ms arbitrary: acc)
  case Nil
  then show ?case by simp
next
  case (Cons pm ms)
  from Cons.prems have nb: "\<not> mVersion pm > ver" by (auto simp: plan_up_Cons split: if_splits)
  show ?case
  proof (cases "up_step db pm acc")
    case (Inl e')
    with Cons.prems nb have "e' = e" by (simp add: plan_up_Cons)
    with up_step_error[OF Inl] show ?thesis by auto
  next
    case (Inr acc')
    with Cons.prems nb have "plan_up db ver ms acc' = Inl e" by (simp add: plan_up_Cons)
    from Cons.IH[OF this] show ?thesis by auto
  qed
qed

lemma plan_up_target_irrelevant:
  "\<forall>m\<in>set ms. mVersion m \<le> ver \<and> mVersion m \<le> ver' \<Longrightarrow>
   plan_up db ver ms acc = plan_up db ver' ms acc"
  by (induction ms arbitrary: acc) (auto simp: plan_up_Cons split: sum.splits)

lemma plan_down_Cons_found:
  "plan_down ps ver (v # vs) acc =
     (if v \<le> ver then Inr acc
      else
        (case SearchVersion ps v of
           Some pm \<Rightarrow>
             (case mDown pm of
                Inl err \<Rightarrow> Inl (UnableToLoadDown (mVersion pm) err)
              | Inr d \<Rightarrow>
                  plan_down ps ver vs (acc @ [\<lparr>Version = mVersion pm, Migration = d, Direction = Down\<rparr>]))
         | None \<Rightarrow> plan_down ps ver vs acc))"
  by (simp add: plan_down.simps(2))

lemma plan_down_append:
  "\<forall>v\<in>set xs. ver < v \<Longrightarrow>
   plan_down ps ver (xs @ ys) acc =
     (case plan_down ps ver xs acc of Inl err \<Rightarrow> Inl err | Inr a \<Rightarrow> plan_down ps ver ys a)"
  by (induction xs arbitrary: acc)
     (auto simp: plan_down_Cons_found split: sum.splits option.splits)

lemma plan_down_actions:
  assumes "sorted (map mVersion ps)"
  shows "plan_down ps ver vs acc = Inr P \<Longrightarrow>
   \<forall>a\<in>set P. a \<in> set acc \<or>
     (Direction a = Down \<and> ver < Version a \<and> Version a \<in> set vs \<and>
      (\<exists>m\<in>set ps. Version a = mVersion m \<and> mDown m = Inr (Migration a)))"
proof (induction vs arbitrary: acc)
  case Nil
  then show ?case by simp
next
  case (Cons v vs)
  show ?case
  proof (cases "v \<le> ver")
    case True
    with Cons.prems show ?thesis by (simp add: plan_down_Cons_sorted[OF assms])
  next
    case False
    show ?thesis
    proof (cases "find (\<lambda>m. mVersion m = v) ps")
      case None
      with Cons.prems False have "plan_down ps ver vs acc = Inr P"
        by (simp add: plan_down_Cons_sorted[OF assms])
      from Cons.IH[OF this] show ?thesis by auto
    next
      case (Some pm)
      then have pm: "pm \<in> set ps" "mVersion pm = v"
        by (auto simp: find_Some_iff)
      from Cons.prems False Some
      have "(case mDown pm of
                Inl err \<Rightarrow> Inl (UnableToLoadDown v err)
              | Inr d \<Rightarrow>
                  plan_down ps ver vs (acc @ [\<lparr>Version = v, Migration = d, Direction = Down\<rparr>])) = Inr P"
        by (simp add: plan_down_Cons_sorted[OF assms])
      then obtain d where d: "mDown pm = Inr d"
        and r: "plan_down ps ver vs (acc @ [\<lparr>Version = v, Migration = d, Direction = Down\<rparr>]) = Inr P"
        by (cases "mDown pm") simp_all
      show ?thesis
      proof
        fix a assume "a \<in> set P"
        with Cons.IH[OF r] consider
            (old) "a \<in> set acc"
          | (new) "a = \<lparr>Version = v, Migration = d, Direction = Down\<rparr>"
          | (rest) "Direction a = Down \<and> ver < Version a \<and> Version a \<in> set vs \<and>
               (\<exists>m\<in>set ps. Version a = mVersion m \<and> mDown m = Inr (Migration a))"
          by auto
        then show "a \<in> set acc \<or>
           (Direction a = Down \<and> ver < Version a \<and> Version a \<in> set (v # vs) \<and>
            (\<exists>m\<in>set ps. Version a = mVersion m \<and> mDown m = Inr (Migration a)))"
        proof cases
          case old
          then show ?thesis by simp
        next
          case new
          have "\<exists>m\<in>set ps. v = mVersion m \<and> mDown m = Inr d"
            using pm d by (intro bexI[of _ pm]) simp_all
          with new False show ?thesis by simp
        next
          case rest
          then show ?thesis by simp
        qed
      qed
    qed
  qed
qed

lemma plan_down_error:
  assumes "sorted (map mVersion ps)"
  shows "plan_down ps ver vs acc = Inl e \<Longrightarrow>
   \<exists>m\<in>set ps. \<exists>err. mDown m = Inl err \<and> e = UnableToLoadDown (mVersion m) err"
proof (induction vs arbitrary: acc)
  case Nil
  then show ?case by simp
next
  case (Cons v vs)
  from Cons.prems have nb: "\<not> v \<le> ver"
    by (auto simp: plan_down_Cons_sorted[OF assms] split: if_splits)
  show ?case
  proof (cases "find (\<lambda>m. mVersion m = v) ps")
    case None
    with Cons.prems nb have "plan_down ps ver vs acc = Inl e"
      by (simp add: plan_down_Cons_sorted[OF assms])
    from Cons.IH[OF this] show ?thesis .
  next
    case (Some pm)
    then have pm: "pm \<in> set ps" "mVersion pm = v"
      by (auto simp: find_Some_iff)
    show ?thesis
    proof (cases "mDown pm")
      case (Inl err)
      with Cons.prems nb Some have "e = UnableToLoadDown v err"
        by (simp add: plan_down_Cons_sorted[OF assms])
      with pm Inl show ?thesis by auto
    next
      case (Inr d)
      with Cons.prems nb Some
      have "plan_down ps ver vs (acc @ [\<lparr>Version = v, Migration = d, Direction = Down\<rparr>]) = Inl e"
        by (simp add: plan_down_Cons_sorted[OF assms])
      from Cons.IH[OF this] show ?thesis .
    qed
  qed
qed

section \<open>Targets beyond the catalog\<close>

lemma LatestVersion_ge: "m \<in> set provList \<Longrightarrow> mVersion m \<le> LatestVersion provList"
  by (auto simp: LatestVersion_eq max_def Max_ge_iff)

lemma sorted_sort_key_mVersion: "sorted (map mVersion (sort_key mVersion provList))"
  by (rule sorted_sort_key)

lemma plan_Inr_cases:
  assumes "plan (Inr provList) (Inr dbList) ver = Inr P"
  shows "P = [] \<or>
         (latest_applied dbList < ver \<and>
            plan_up (sort dbList) ver (sort_key mVersion provList) [] = Inr P) \<or>
         (ver < latest_applied dbList \<and>
            plan_down (sort_key mVersion provList) ver (rev (sort dbList)) [] = Inr P)"
proof (cases "provList = []")
  case True
  with assms show ?thesis by (simp add: plan_unfold)
next
  case False
  show ?thesis
  proof (cases "latest_applied dbList < ver")
    case True
    with assms False show ?thesis by (simp add: plan_unfold)
  next
    case nf: False
    show ?thesis
    proof (cases "ver < latest_applied dbList")
      case True
      with assms False nf show ?thesis by (simp add: plan_unfold)
    next
      case False
      with assms \<open>provList \<noteq> []\<close> nf show ?thesis by (simp add: plan_unfold)
    qed
  qed
qed

lemma plan_Inl_cases:
  assumes "plan (Inr provList) (Inr dbList) ver = Inl e"
  shows "(latest_applied dbList < ver \<and>
            plan_up (sort dbList) ver (sort_key mVersion provList) [] = Inl e) \<or>
         (ver < latest_applied dbList \<and>
            plan_down (sort_key mVersion provList) ver (rev (sort dbList)) [] = Inl e)"
proof (cases "provList = []")
  case True
  with assms show ?thesis by (simp add: plan_unfold)
next
  case False
  show ?thesis
  proof (cases "latest_applied dbList < ver")
    case True
    with assms False show ?thesis by (simp add: plan_unfold)
  next
    case nf: False
    show ?thesis
    proof (cases "ver < latest_applied dbList")
      case True
      with assms False nf show ?thesis by (simp add: plan_unfold)
    next
      case False
      with assms \<open>provList \<noteq> []\<close> nf show ?thesis by (simp add: plan_unfold)
    qed
  qed
qed

text \<open>
  Claim C7. Let the target exceed the highest catalog version (\<^verbatim>\<open>LatestVersion\<close>). Then
  planning raises no error on account of the target: the only errors it can return are the
  wrapped failures of a catalog migration's snapshot, forward or backward text. Every
  action of a plan it returns is at a catalog version, so at most at the highest one. When
  the plan is a forward plan, it is the walk up to the highest catalog version: the walk
  saturates there. In particular the catalog \<open>{1:(up1, down1), 2:(up2, down2)}\<close> with
  nothing applied and target 3 gives \<open>[(1, Up, up1), (2, Up, up2)]\<close>.
\<close>

theorem target_beyond_catalog:
  assumes "LatestVersion provList < ver"
  shows "(\<forall>e. plan (Inr provList) (Inr dbList) ver = Inl e \<longrightarrow>
            (\<exists>m\<in>set provList. \<exists>err.
               (mSnapshot m = Inl err \<and> e = UnableToLoadSnapshot (mVersion m) err) \<or>
               (mUp m = Inl err \<and> e = UnableToLoadUp (mVersion m) err) \<or>
               (mDown m = Inl err \<and> e = UnableToLoadDown (mVersion m) err)))
       \<and> (\<forall>P. plan (Inr provList) (Inr dbList) ver = Inr P \<longrightarrow>
            (\<forall>a\<in>set P. Version a \<le> LatestVersion provList \<and> Version a \<in> mVersion ` set provList))
       \<and> (latest_applied dbList < ver \<longrightarrow>
            plan (Inr provList) (Inr dbList) ver =
              plan_up (sort dbList) (LatestVersion provList) (sort_key mVersion provList) [])
       \<and> plan (Inr [testMigration 1 ''up1'' ''down1'' [], testMigration 2 ''up2'' ''down2'' []])
            (Inr []) 3 =
              Inr [\<lparr>Version = 1, Migration = ''up1'', Direction = Up\<rparr>,
                   \<lparr>Version = 2, Migration = ''up2'', Direction = Up\<rparr>]"
proof (intro conjI allI impI)
  let ?ps = "sort_key mVersion provList"
  let ?db = "sort dbList"
  note srt = sorted_sort_key_mVersion[of provList]
  fix e assume e: "plan (Inr provList) (Inr dbList) ver = Inl e"
  from plan_Inl_cases[OF this]
  consider (up) "plan_up ?db ver ?ps [] = Inl e" | (down) "plan_down ?ps ver (rev ?db) [] = Inl e"
    by blast
  then show "\<exists>m\<in>set provList. \<exists>err.
               (mSnapshot m = Inl err \<and> e = UnableToLoadSnapshot (mVersion m) err) \<or>
               (mUp m = Inl err \<and> e = UnableToLoadUp (mVersion m) err) \<or>
               (mDown m = Inl err \<and> e = UnableToLoadDown (mVersion m) err)"
  proof cases
    case up
    from plan_up_error[OF up] obtain m where m: "m \<in> set provList"
      and "(\<exists>err. mSnapshot m = Inl err \<and> e = UnableToLoadSnapshot (mVersion m) err) \<or>
           (\<exists>err. mUp m = Inl err \<and> e = UnableToLoadUp (mVersion m) err)"
      by auto
    then show ?thesis by (intro bexI[OF _ m]) blast
  next
    case down
    from plan_down_error[OF srt down] obtain m err where m: "m \<in> set provList"
      and "mDown m = Inl err \<and> e = UnableToLoadDown (mVersion m) err"
      by auto
    then show ?thesis by (intro bexI[OF _ m]) blast
  qed
next
  let ?ps = "sort_key mVersion provList"
  let ?db = "sort dbList"
  note srt = sorted_sort_key_mVersion[of provList]
  fix P assume P: "plan (Inr provList) (Inr dbList) ver = Inr P"
  show "\<forall>a\<in>set P. Version a \<le> LatestVersion provList \<and> Version a \<in> mVersion ` set provList"
  proof
    fix a assume a: "a \<in> set P"
    from plan_Inr_cases[OF P] consider (none) "P = []" | (up) "plan_up ?db ver ?ps [] = Inr P"
      | (down) "plan_down ?ps ver (rev ?db) [] = Inr P"
      by blast
    then have "\<exists>m\<in>set provList. Version a = mVersion m"
    proof cases
      case none
      with a show ?thesis by simp
    next
      case up
      from plan_up_actions[OF up] a
      have "\<exists>m\<in>set (sort_key mVersion provList). Version a = mVersion m" by fastforce
      then show ?thesis by simp
    next
      case down
      from plan_down_actions[OF srt down] a
      have "\<exists>m\<in>set (sort_key mVersion provList). Version a = mVersion m" by fastforce
      then show ?thesis by simp
    qed
    then obtain m where m: "m \<in> set provList" "Version a = mVersion m" by auto
    show "Version a \<le> LatestVersion provList \<and> Version a \<in> mVersion ` set provList"
      using LatestVersion_ge[OF m(1)] m by auto
  qed
next
  assume fw: "latest_applied dbList < ver"
  have all: "\<forall>m\<in>set (sort_key mVersion provList). mVersion m \<le> ver \<and> mVersion m \<le> LatestVersion provList"
    using LatestVersion_ge assms by fastforce
  show "plan (Inr provList) (Inr dbList) ver =
          plan_up (sort dbList) (LatestVersion provList) (sort_key mVersion provList) []"
  proof (cases "provList = []")
    case True
    then show ?thesis by (simp add: plan_unfold)
  next
    case False
    with fw show ?thesis
      by (simp add: plan_unfold plan_up_target_irrelevant[OF all])
  qed
next
  show "plan (Inr [testMigration 1 ''up1'' ''down1'' [], testMigration 2 ''up2'' ''down2'' []])
            (Inr []) 3 =
              Inr [\<lparr>Version = 1, Migration = ''up1'', Direction = Up\<rparr>,
                   \<lparr>Version = 2, Migration = ''up2'', Direction = Up\<rparr>]"
    by code_simp
qed

theorem target_beyond_catalog_witness:
  "plan (Inr [testMigration 2 ''up2'' ''down2'' [], testMigration 1 ''up1'' ''down1'' []]) (Inr [1]) 7 =
     Inr [\<lparr>Version = 2, Migration = ''up2'', Direction = Up\<rparr>]"
proof -
  let ?cat = "[testMigration 2 ''up2'' ''down2'' [], testMigration 1 ''up1'' ''down1'' []]"
  have h: "LatestVersion ?cat < 7" by (simp add: LatestVersion_def testMigration_def)
  have fw: "latest_applied [1] < 7" by (simp add: latest_applied_def)
  have walk: "plan_up (sort [1]) (LatestVersion ?cat) (sort_key mVersion ?cat) [] =
     Inr [\<lparr>Version = 2, Migration = ''up2'', Direction = Up\<rparr>]"
    by code_simp
  from target_beyond_catalog[OF h, of "[1]"] fw walk show ?thesis by simp
qed

section \<open>Failing payloads\<close>

lemma find_SomeD: "find P xs = Some x \<Longrightarrow> x \<in> set xs \<and> P x"
  by (induction xs) (auto split: if_splits)

lemma plan_up_fails_at:
  assumes "sorted (map mVersion ms)" and "m \<in> set ms" and "mVersion m \<le> ver"
    and fail: "\<And>acc. \<exists>e. up_step db m acc = Inl e"
  shows "\<exists>e. plan_up db ver ms acc = Inl e"
proof -
  from assms(2) obtain pre post where ms: "ms = pre @ m # post"
    by (auto dest: split_list)
  have "\<forall>x\<in>set pre. mVersion x \<le> mVersion m"
    using assms(1) unfolding ms by (auto simp: sorted_append)
  then have pre: "\<forall>x\<in>set pre. mVersion x \<le> ver" using assms(3) by auto
  show ?thesis
  proof (cases "plan_up db ver pre acc")
    case (Inl e)
    then show ?thesis unfolding ms by (simp add: plan_up_append[OF pre])
  next
    case (Inr a)
    from fail[of a] obtain e where "up_step db m a = Inl e" by auto
    with Inr assms(3) show ?thesis unfolding ms
      by (simp add: plan_up_append[OF pre] plan_up_Cons)
  qed
qed

lemma plan_down_fails_at:
  assumes "sorted (map mVersion ps)" and "sorted (rev vs)" and "v \<in> set vs" and "ver < v"
    and "find (\<lambda>m. mVersion m = v) ps = Some m" and "mDown m = Inl err"
  shows "\<exists>e. plan_down ps ver vs acc = Inl e"
proof -
  from assms(3) obtain xs ys where vs: "vs = xs @ v # ys"
    by (auto dest: split_list)
  have "\<forall>x\<in>set xs. v \<le> x"
    using assms(2) unfolding vs by (auto simp: sorted_append)
  then have xs: "\<forall>x\<in>set xs. ver < x" using assms(4) by auto
  show ?thesis
  proof (cases "plan_down ps ver xs acc")
    case (Inl e)
    then show ?thesis unfolding vs by (simp add: plan_down_append[OF xs])
  next
    case (Inr a)
    with assms(4,5,6) show ?thesis unfolding vs
      by (simp add: plan_down_append[OF xs] plan_down_Cons_sorted[OF assms(1)])
  qed
qed

text \<open>
  Claim C8. A payload that planning resolves and that fails makes planning fail; the result
  is then the error alone (\<^verbatim>\<open>return nil, err\<close>), never a plan without the migration.
  The payloads resolved are: in the forward walk, for each catalog migration that is not
  beyond the target and not applied, its snapshot when nothing at all is applied, and its
  forward text when something is applied or the snapshot is empty; in the backward walk,
  for each applied version above the target, the backward text of the catalog migration
  with that version.
\<close>

theorem payload_failure_fails_planning:
  "(latest_applied dbList < ver \<and> dbList = [] \<and> m \<in> set provList \<and> mVersion m \<le> ver \<and>
      mSnapshot m = Inl err
      \<longrightarrow> (\<exists>e. plan (Inr provList) (Inr dbList) ver = Inl e))
   \<and> (latest_applied dbList < ver \<and> m \<in> set provList \<and> mVersion m \<le> ver \<and>
      mVersion m \<notin> set dbList \<and> (dbList \<noteq> [] \<or> mSnapshot m = Inr []) \<and> mUp m = Inl err
      \<longrightarrow> (\<exists>e. plan (Inr provList) (Inr dbList) ver = Inl e))
   \<and> (ver < latest_applied dbList \<and> m \<in> set provList \<and> mVersion m \<in> set dbList \<and>
      ver < mVersion m \<and> (\<forall>m'\<in>set provList. mVersion m' = mVersion m \<longrightarrow> m' = m) \<and>
      mDown m = Inl err
      \<longrightarrow> (\<exists>e. plan (Inr provList) (Inr dbList) ver = Inl e))"
proof (intro conjI impI)
  assume h: "latest_applied dbList < ver \<and> dbList = [] \<and> m \<in> set provList \<and> mVersion m \<le> ver \<and>
      mSnapshot m = Inl err"
  then have ne: "provList \<noteq> []" by auto
  have "\<exists>e. plan_up (sort dbList) ver (sort_key mVersion provList) [] = Inl e"
  proof (rule plan_up_fails_at)
    show "sorted (map mVersion (sort_key mVersion provList))" by (rule sorted_sort_key)
    show "m \<in> set (sort_key mVersion provList)" using h by simp
    show "mVersion m \<le> ver" using h by simp
    show "\<exists>e. up_step (sort dbList) m acc = Inl e" for acc
      using h by (simp add: up_step_Nil)
  qed
  moreover have "plan (Inr provList) (Inr dbList) ver =
      plan_up (sort dbList) ver (sort_key mVersion provList) []"
    using ne conjunct1[OF h] by (simp add: plan_unfold)
  ultimately show "\<exists>e. plan (Inr provList) (Inr dbList) ver = Inl e" by simp
next
  assume h: "latest_applied dbList < ver \<and> m \<in> set provList \<and> mVersion m \<le> ver \<and>
      mVersion m \<notin> set dbList \<and> (dbList \<noteq> [] \<or> mSnapshot m = Inr []) \<and> mUp m = Inl err"
  then have ne: "provList \<noteq> []" by auto
  have "\<exists>e. plan_up (sort dbList) ver (sort_key mVersion provList) [] = Inl e"
  proof (rule plan_up_fails_at)
    show "sorted (map mVersion (sort_key mVersion provList))" by (rule sorted_sort_key)
    show "m \<in> set (sort_key mVersion provList)" using h by simp
    show "mVersion m \<le> ver" using h by simp
    show "\<exists>e. up_step (sort dbList) m acc = Inl e" for acc
    proof (cases "dbList = []")
      case True
      with h show ?thesis by (simp add: up_step_Nil)
    next
      case False
      with h show ?thesis by (simp add: up_step_sort)
    qed
  qed
  with h ne show "\<exists>e. plan (Inr provList) (Inr dbList) ver = Inl e"
    by (simp add: plan_unfold)
next
  assume h: "ver < latest_applied dbList \<and> m \<in> set provList \<and> mVersion m \<in> set dbList \<and>
      ver < mVersion m \<and> (\<forall>m'\<in>set provList. mVersion m' = mVersion m \<longrightarrow> m' = m) \<and>
      mDown m = Inl err"
  then have ne: "provList \<noteq> []" by auto
  have "find (\<lambda>x. mVersion x = mVersion m) (sort_key mVersion provList) \<noteq> None"
    using h by (auto simp: find_None_iff)
  then obtain m' where f: "find (\<lambda>x. mVersion x = mVersion m) (sort_key mVersion provList) = Some m'"
    by auto
  from find_SomeD[OF this] have "m' \<in> set provList" "mVersion m' = mVersion m"
    by simp_all
  with h have "m' = m" by simp
  with f have find: "find (\<lambda>x. mVersion x = mVersion m) (sort_key mVersion provList) = Some m"
    by simp
  have "\<exists>e. plan_down (sort_key mVersion provList) ver (rev (sort dbList)) [] = Inl e"
  proof (rule plan_down_fails_at[OF _ _ _ _ find])
    show "sorted (map mVersion (sort_key mVersion provList))" by (rule sorted_sort_key)
    show "sorted (rev (rev (sort dbList)))" by simp
    show "mVersion m \<in> set (rev (sort dbList))" using h by simp
    show "ver < mVersion m" using h by simp
    show "mDown m = Inl err" using h by simp
  qed
  with h ne show "\<exists>e. plan (Inr provList) (Inr dbList) ver = Inl e"
    by (simp add: plan_unfold)
qed

theorem payload_failure_fails_planning_witness:
  "(\<exists>e. plan (Inr [testMigration 1 ''up1'' ''down1'' [],
                   \<lparr>mVersion = 2, mUp = Inr ''up2'', mDown = Inr ''down2'',
                    mSnapshot = Inl (ExternalError ''unreadable'')\<rparr>]) (Inr []) 2 = Inl e)
   \<and> (\<exists>e. plan (Inr [testMigration 1 ''up1'' ''down1'' [],
                   \<lparr>mVersion = 2, mUp = Inl (ExternalError ''unreadable''), mDown = Inr ''down2'',
                    mSnapshot = Inr ''snap2''\<rparr>]) (Inr [1]) 2 = Inl e)
   \<and> (\<exists>e. plan (Inr [testMigration 1 ''up1'' ''down1'' [],
                   \<lparr>mVersion = 2, mUp = Inr ''up2'', mDown = Inl (ExternalError ''unreadable''),
                    mSnapshot = Inr []\<rparr>]) (Inr [1, 2]) 0 = Inl e)"
proof (intro conjI)
  let ?m1 = "testMigration 1 ''up1'' ''down1'' []"
  let ?s = "\<lparr>mVersion = 2, mUp = Inr ''up2'', mDown = Inr ''down2'',
             mSnapshot = Inl (ExternalError ''unreadable'')\<rparr>"
  let ?u = "\<lparr>mVersion = 2, mUp = Inl (ExternalError ''unreadable''), mDown = Inr ''down2'',
             mSnapshot = Inr ''snap2''\<rparr>"
  let ?d = "\<lparr>mVersion = 2, mUp = Inr ''up2'', mDown = Inl (ExternalError ''unreadable''),
             mSnapshot = Inr []\<rparr>"
  have a: "latest_applied [] < 2 \<and> ([]::int list) = [] \<and> ?s \<in> set [?m1, ?s] \<and> mVersion ?s \<le> 2 \<and>
      mSnapshot ?s = Inl (ExternalError ''unreadable'')"
    by (simp add: latest_applied_def)
  from payload_failure_fails_planning[of "[]" 2 ?s "[?m1, ?s]" "ExternalError ''unreadable''",
      THEN conjunct1, rule_format, OF a]
  show "\<exists>e. plan (Inr [?m1, ?s]) (Inr []) 2 = Inl e" .
  have b: "latest_applied [1] < 2 \<and> ?u \<in> set [?m1, ?u] \<and> mVersion ?u \<le> 2 \<and>
      mVersion ?u \<notin> set [1] \<and> ([1::int] \<noteq> [] \<or> mSnapshot ?u = Inr []) \<and>
      mUp ?u = Inl (ExternalError ''unreadable'')"
    by (simp add: latest_applied_def)
  from payload_failure_fails_planning[of "[1]" 2 ?u "[?m1, ?u]" "ExternalError ''unreadable''",
      THEN conjunct2, THEN conjunct1, rule_format, OF b]
  show "\<exists>e. plan (Inr [?m1, ?u]) (Inr [1]) 2 = Inl e" .
  have c: "0 < latest_applied [1, 2] \<and> ?d \<in> set [?m1, ?d] \<and> mVersion ?d \<in> set [1, 2] \<and>
      0 < mVersion ?d \<and> (\<forall>m'\<in>set [?m1, ?d]. mVersion m' = mVersion ?d \<longrightarrow> m' = ?d) \<and>
      mDown ?d = Inl (ExternalError ''unreadable'')"
    by (simp add: latest_applied_def testMigration_def)
  from payload_failure_fails_planning[of "[1, 2]" 0 ?d "[?m1, ?d]" "ExternalError ''unreadable''",
      THEN conjunct2, THEN conjunct2, rule_format, OF c]
  show "\<exists>e. plan (Inr [?m1, ?d]) (Inr [1, 2]) 0 = Inl e" .
qed

section \<open>The order of the listings\<close>

lemma sort_key_distinct_perm:
  assumes "mset xs = mset ys" and "distinct (map f ys)"
  shows "sort_key f xs = sort_key f ys"
proof (rule properties_for_sort_key)
  show "mset (sort_key f ys) = mset xs" using assms(1) by simp
  show "sorted (map f (sort_key f ys))" by (rule sorted_sort_key)
  fix k assume "k \<in> set (sort_key f ys)"
  then have k: "k \<in> set ys" by simp
  have "mset (map f xs) = mset (map f ys)" using assms(1) by simp
  then have dx: "distinct (map f xs)"
    using assms(2) mset_eq_imp_distinct_iff by blast
  have "mset (map f (sort_key f ys)) = mset (map f ys)" by simp
  then have dy: "distinct (map f (sort_key f ys))"
    using assms(2) mset_eq_imp_distinct_iff by blast
  have sx: "set xs = set ys" using assms(1) by (rule mset_eq_setD)
  have "filter (\<lambda>x. f k = f x) zs = [k]" if "distinct (map f zs)" "k \<in> set zs" for zs
    using that
  proof (induction zs)
    case Nil
    then show ?case by simp
  next
    case (Cons z zs)
    show ?case
    proof (cases "z = k")
      case True
      with Cons.prems have "\<forall>x\<in>set zs. f k \<noteq> f x" by auto
      then have "filter (\<lambda>x. f k = f x) zs = []" by (simp add: filter_empty_conv)
      with True show ?thesis by simp
    next
      case False
      with Cons.prems have "k \<in> set zs" "f z \<noteq> f k" by auto
      with Cons show ?thesis by auto
    qed
  qed
  from this[OF dy] this[OF dx] k sx
  show "filter (\<lambda>x. f k = f x) (sort_key f ys) = filter (\<lambda>x. f k = f x) xs" by simp
qed


lemma sort_perm:
  fixes xs :: "int list"
  assumes "mset xs = mset ys"
  shows "sort xs = sort ys"
  by (rule properties_for_sort) (simp_all add: assms)

lemma latest_applied_perm:
  assumes "mset xs = mset ys"
  shows "latest_applied xs = latest_applied ys"
proof -
  have "set xs = set ys" using assms by (rule mset_eq_setD)
  moreover have "xs = [] \<longleftrightarrow> ys = []" using assms by (metis mset_zero_iff)
  ultimately show ?thesis by (simp add: latest_applied_def)
qed

lemma plan_applied_order:
  assumes "mset dbList' = mset dbList"
  shows "plan (Inr provList) (Inr dbList') ver = plan (Inr provList) (Inr dbList) ver"
  by (simp add: plan_unfold sort_perm[OF assms] latest_applied_perm[OF assms])

text \<open>
  Claim C10, amended. \<open>plan\<close> is a function of what the two collaborators list and the
  target. Listing the applied versions in another order never changes the plan; listing the
  migrations in another order does not change it when the versions of the catalog are
  pairwise distinct. (Two migrations with the same version stay in the order of the
  listing, and so do their actions.)
\<close>

theorem plan_independent_of_listing_order:
  assumes "mset provList' = mset provList" and "mset dbList' = mset dbList"
    and "distinct (map mVersion provList)"
  shows "plan (Inr provList') (Inr dbList') ver = plan (Inr provList) (Inr dbList) ver"
proof -
  have e: "provList' = [] \<longleftrightarrow> provList = []" using assms(1) by (metis mset_zero_iff)
  have "sort_key mVersion provList' = sort_key mVersion provList"
    by (rule sort_key_distinct_perm[OF assms(1,3)])
  then show ?thesis
    by (simp add: plan_unfold e sort_perm[OF assms(2)] latest_applied_perm[OF assms(2)])
qed

theorem plan_independent_of_listing_order_witness:
  "plan (Inr [testMigration 4 ''up4'' ''down4'' [], testMigration 2 ''up2'' ''down2'' [],
              testMigration 1 ''up1'' ''down1'' [], testMigration 3 ''up3'' ''down3'' []])
        (Inr [3, 1]) 4 =
   plan (Inr [testMigration 1 ''up1'' ''down1'' [], testMigration 2 ''up2'' ''down2'' [],
              testMigration 3 ''up3'' ''down3'' [], testMigration 4 ''up4'' ''down4'' []])
        (Inr [1, 3]) 4"
proof -
  let ?m1 = "testMigration 1 ''up1'' ''down1'' []"
  let ?m2 = "testMigration 2 ''up2'' ''down2'' []"
  let ?m3 = "testMigration 3 ''up3'' ''down3'' []"
  let ?m4 = "testMigration 4 ''up4'' ''down4'' []"
  have h1: "mset [?m4, ?m2, ?m1, ?m3] = mset [?m1, ?m2, ?m3, ?m4]" by simp
  have h2: "mset [3, 1::int] = mset [1, 3]" by simp
  have h3: "distinct (map mVersion [?m1, ?m2, ?m3, ?m4])" by (simp add: testMigration_def)
  show ?thesis by (rule plan_independent_of_listing_order[OF h1 h2 h3])
qed

text \<open>
  Claim C10 as stated, for every catalog list, fails on a listing with two migrations of
  the same version: the two orders of the listing give two different plans.
\<close>

theorem plan_depends_on_order_of_equal_versions:
  "plan (Inr [testMigration 1 ''upA'' ''downA'' [], testMigration 1 ''upB'' ''downB'' []]) (Inr []) 1 =
     Inr [\<lparr>Version = 1, Migration = ''upA'', Direction = Up\<rparr>,
          \<lparr>Version = 1, Migration = ''upB'', Direction = Up\<rparr>]
   \<and> plan (Inr [testMigration 1 ''upB'' ''downB'' [], testMigration 1 ''upA'' ''downA'' []]) (Inr []) 1 =
     Inr [\<lparr>Version = 1, Migration = ''upB'', Direction = Up\<rparr>,
          \<lparr>Version = 1, Migration = ''upA'', Direction = Up\<rparr>]"
  by code_simp

section \<open>Direction and order of a plan\<close>

lemma plan_one_direction:
  assumes "plan (Inr provList) (Inr dbList) ver = Inr P"
  shows "(\<forall>a\<in>set P. Direction a = Up) \<or> (\<forall>a\<in>set P. Direction a = Down)"
proof -
  from plan_Inr_cases[OF assms] consider (none) "P = []"
    | (up) "plan_up (sort dbList) ver (sort_key mVersion provList) [] = Inr P"
    | (down) "plan_down (sort_key mVersion provList) ver (rev (sort dbList)) [] = Inr P"
    by blast
  then show ?thesis
  proof cases
    case none
    then show ?thesis by simp
  next
    case up
    from plan_up_actions[OF up] have "\<forall>a\<in>set P. Direction a = Up" by simp
    then show ?thesis ..
  next
    case down
    from plan_down_actions[OF sorted_sort_key down] have "\<forall>a\<in>set P. Direction a = Down" by simp
    then show ?thesis ..
  qed
qed

lemma up_step_shape:
  assumes "up_step db pm acc = Inr acc'"
  shows "acc' = [] \<or> (\<exists>t. acc' = [\<lparr>Version = mVersion pm, Migration = t, Direction = Up\<rparr>]) \<or>
         (\<exists>t. acc' = acc @ [\<lparr>Version = mVersion pm, Migration = t, Direction = Up\<rparr>])"
  using assms by (auto simp: up_step_def Let_def split: sum.splits if_splits)

lemma plan_up_increasing:
  "sorted_wrt (<) (map mVersion ms) \<Longrightarrow> sorted_wrt (<) (map Version acc) \<Longrightarrow>
   \<forall>a\<in>set acc. \<forall>m\<in>set ms. Version a < mVersion m \<Longrightarrow>
   plan_up db ver ms acc = Inr P \<Longrightarrow> sorted_wrt (<) (map Version P)"
proof (induction ms arbitrary: acc)
  case Nil
  then show ?case by simp
next
  case (Cons pm ms)
  show ?case
  proof (cases "mVersion pm > ver")
    case True
    with Cons.prems show ?thesis by (simp add: plan_up_Cons)
  next
    case False
    with Cons.prems(4) obtain acc' where s: "up_step db pm acc = Inr acc'"
      and r: "plan_up db ver ms acc' = Inr P"
      by (cases "up_step db pm acc") (simp_all add: plan_up_Cons)
    have lt: "\<forall>m\<in>set ms. mVersion pm < mVersion m" using Cons.prems(1) by simp
    have srt: "sorted_wrt (<) (map mVersion ms)" using Cons.prems(1) by simp
    from up_step_shape[OF s] have "sorted_wrt (<) (map Version acc') \<and>
        (\<forall>a\<in>set acc'. \<forall>m\<in>set ms. Version a < mVersion m)"
    proof (elim disjE exE)
      assume "acc' = []"
      then show ?thesis by simp
    next
      fix t assume "acc' = [\<lparr>Version = mVersion pm, Migration = t, Direction = Up\<rparr>]"
      with lt show ?thesis by simp
    next
      fix t assume a: "acc' = acc @ [\<lparr>Version = mVersion pm, Migration = t, Direction = Up\<rparr>]"
      have "sorted_wrt (<) (map Version acc')"
        using Cons.prems(2,3) unfolding a by (simp add: sorted_wrt_append)
      moreover have "\<forall>a\<in>set acc'. \<forall>m\<in>set ms. Version a < mVersion m"
        using Cons.prems(3) lt unfolding a by auto
      ultimately show ?thesis ..
    qed
    then show ?thesis using Cons.IH[OF srt _ _ r] by blast
  qed
qed

lemma plan_up_above_applied:
  assumes db: "sorted db"
  shows "sorted_wrt (<) (map mVersion ms) \<Longrightarrow>
   \<forall>a\<in>set acc. \<forall>m\<in>set ms. Version a < mVersion m \<Longrightarrow>
   plan_up db ver ms acc = Inr P \<Longrightarrow>
   \<forall>a\<in>set P. Version a \<notin> set db \<or> a \<in> set acc"
  and "sorted_wrt (<) (map mVersion ms) \<Longrightarrow>
   \<forall>a\<in>set acc. \<forall>m\<in>set ms. Version a < mVersion m \<Longrightarrow>
   plan_up db ver ms acc = Inr P \<Longrightarrow>
   \<forall>a\<in>set P. \<forall>m\<in>set ms. mVersion m \<in> set db \<and> mVersion m \<le> ver \<longrightarrow> mVersion m < Version a"
proof (induction ms arbitrary: acc)
  case Nil
  { case 1 then show ?case by simp }
  { case 2 then show ?case by simp }
next
  case (Cons pm ms)
  {
    case 1
    show ?case
    proof (cases "mVersion pm > ver")
      case True
      with 1 show ?thesis by (simp add: plan_up_Cons)
    next
      case False
      with 1(3) obtain acc' where s: "up_step db pm acc = Inr acc'"
        and r: "plan_up db ver ms acc' = Inr P"
        by (cases "up_step db pm acc") (simp_all add: plan_up_Cons)
      have lt: "\<forall>m\<in>set ms. mVersion pm < mVersion m" using 1(1) by simp
      have srt: "sorted_wrt (<) (map mVersion ms)" using 1(1) by simp
      have inv: "\<forall>a\<in>set acc'. \<forall>m\<in>set ms. Version a < mVersion m"
        using up_step_shape[OF s] 1(2) lt by auto
      have new: "\<forall>a\<in>set acc'. Version a \<notin> set db \<or> a \<in> set acc"
        using s by (auto simp: up_step_sorted[OF db] split: if_splits sum.splits)
      from Cons.IH(1)[OF srt inv r] new show ?thesis by blast
    qed
  next
    case 2
    show ?case
    proof (cases "mVersion pm > ver")
      case True
      then have "\<forall>m\<in>set (pm # ms). \<not> mVersion m \<le> ver" using 2(1) by force
      then show ?thesis by blast
    next
      case False
      with 2(3) obtain acc' where s: "up_step db pm acc = Inr acc'"
        and r: "plan_up db ver ms acc' = Inr P"
        by (cases "up_step db pm acc") (simp_all add: plan_up_Cons)
      have lt: "\<forall>m\<in>set ms. mVersion pm < mVersion m" using 2(1) by simp
      have srt: "sorted_wrt (<) (map mVersion ms)" using 2(1) by simp
      have inv: "\<forall>a\<in>set acc'. \<forall>m\<in>set ms. Version a < mVersion m"
        using up_step_shape[OF s] 2(2) lt by auto
      have rest: "\<forall>a\<in>set P. \<forall>m\<in>set ms. mVersion m \<in> set db \<and> mVersion m \<le> ver \<longrightarrow> mVersion m < Version a"
        by (rule Cons.IH(2)[OF srt inv r])
      have here: "\<forall>a\<in>set P. mVersion pm \<in> set db \<longrightarrow> mVersion pm < Version a"
      proof (intro ballI impI)
        fix a assume a: "a \<in> set P" and ap: "mVersion pm \<in> set db"
        from s ap have "acc' = []" by (simp add: up_step_sorted[OF db])
        with plan_up_actions[OF r] a obtain m where "m \<in> set ms" "Version a = mVersion m"
          by auto
        with lt show "mVersion pm < Version a" by simp
      qed
      from rest here show ?thesis by simp
    qed
  }
qed

lemma plan_down_decreasing:
  assumes ps: "sorted (map mVersion ps)"
  shows "sorted_wrt (>) vs \<Longrightarrow> sorted_wrt (>) (map Version acc) \<Longrightarrow>
   \<forall>a\<in>set acc. \<forall>v\<in>set vs. v < Version a \<Longrightarrow>
   plan_down ps ver vs acc = Inr P \<Longrightarrow> sorted_wrt (>) (map Version P)"
proof (induction vs arbitrary: acc)
  case Nil
  then show ?case by simp
next
  case (Cons v vs)
  show ?case
  proof (cases "v \<le> ver")
    case True
    with Cons.prems show ?thesis by (simp add: plan_down_Cons_sorted[OF ps])
  next
    case False
    have srt: "sorted_wrt (>) vs" and lt: "\<forall>x\<in>set vs. x < v" using Cons.prems(1) by auto
    have inv: "\<forall>a\<in>set acc. \<forall>v\<in>set vs. v < Version a" using Cons.prems(3) by simp
    show ?thesis
    proof (cases "find (\<lambda>m. mVersion m = v) ps")
      case None
      with Cons.prems(4) False have "plan_down ps ver vs acc = Inr P"
        by (simp add: plan_down_Cons_sorted[OF ps])
      from Cons.IH[OF srt Cons.prems(2) inv this] show ?thesis .
    next
      case (Some pm)
      let ?new = "\<lparr>Version = v, Migration = d, Direction = Down\<rparr>"
      from Cons.prems(4) False Some
      have "(case mDown pm of
                Inl err \<Rightarrow> Inl (UnableToLoadDown v err)
              | Inr d \<Rightarrow>
                  plan_down ps ver vs (acc @ [\<lparr>Version = v, Migration = d, Direction = Down\<rparr>])) = Inr P"
        by (simp add: plan_down_Cons_sorted[OF ps])
      then obtain d where
        r: "plan_down ps ver vs (acc @ [\<lparr>Version = v, Migration = d, Direction = Down\<rparr>]) = Inr P"
        by (cases "mDown pm") simp_all
      have s': "sorted_wrt (>) (map Version (acc @ [\<lparr>Version = v, Migration = d, Direction = Down\<rparr>]))"
        using Cons.prems(2,3) by (simp add: sorted_wrt_append)
      have inv': "\<forall>a\<in>set (acc @ [\<lparr>Version = v, Migration = d, Direction = Down\<rparr>]).
                    \<forall>x\<in>set vs. x < Version a"
        using inv lt by auto
      from Cons.IH[OF srt s' inv' r] show ?thesis .
    qed
  qed
qed


lemma strict_sorted_catalog:
  assumes "distinct (map mVersion provList)"
  shows "sorted_wrt (<) (map mVersion (sort_key mVersion provList))"
proof -
  have "mset (map mVersion (sort_key mVersion provList)) = mset (map mVersion provList)" by simp
  then have "distinct (map mVersion (sort_key mVersion provList))"
    using assms mset_eq_imp_distinct_iff by blast
  then show ?thesis using sorted_sort_key[of mVersion provList]
    by (simp add: strict_sorted_iff)
qed

lemma strict_sorted_applied:
  fixes dbList :: "int list"
  assumes "distinct dbList"
  shows "sorted_wrt (>) (rev (sort dbList))"
proof -
  have "sorted_wrt (<) (sort dbList)" using assms by (simp add: strict_sorted_iff)
  then show ?thesis by (simp add: sorted_wrt_rev)
qed

text \<open>
  What holds of every plan, for a catalog with pairwise distinct versions and a list of
  applied versions without repetition. A forward plan has strictly increasing versions; each
  is an unapplied catalog version, not beyond the target, and above every applied version
  that the catalog contains. A backward plan has strictly decreasing versions; each is an
  applied catalog version above the target.
\<close>

lemma forward_plan_shape:
  assumes "distinct (map mVersion provList)"
    and "latest_applied dbList < ver"
    and "plan (Inr provList) (Inr dbList) ver = Inr P"
  shows "sorted_wrt (<) (map Version P)"
    and "\<forall>a\<in>set P. Direction a = Up \<and> Version a \<notin> set dbList \<and> Version a \<le> ver \<and>
           Version a \<in> mVersion ` set provList"
    and "\<forall>a\<in>set P. \<forall>v\<in>set dbList \<inter> mVersion ` set provList. v < Version a"
proof -
  let ?ps = "sort_key mVersion provList"
  let ?db = "sort dbList"
  from plan_Inr_cases[OF assms(3)] assms(2)
  have "P = [] \<or> plan_up ?db ver ?ps [] = Inr P" by auto
  then have up: "plan_up ?db ver ?ps [] = Inr P"
  proof
    assume "P = []"
    with assms(2,3) show ?thesis by (cases "provList = []") (simp_all add: plan_unfold)
  qed
  note srt = strict_sorted_catalog[OF assms(1)]
  show "sorted_wrt (<) (map Version P)"
    by (rule plan_up_increasing[OF srt _ _ up]) simp_all
  have un: "\<forall>a\<in>set P. Version a \<notin> set ?db \<or> a \<in> set []"
    by (rule plan_up_above_applied(1)[OF sorted_sort srt _ up]) simp
  have act: "\<forall>a\<in>set P. Direction a = Up \<and> Version a \<le> ver \<and>
      (\<exists>m\<in>set ?ps. Version a = mVersion m)"
    using plan_up_actions[OF up] by fastforce
  show "\<forall>a\<in>set P. Direction a = Up \<and> Version a \<notin> set dbList \<and> Version a \<le> ver \<and>
           Version a \<in> mVersion ` set provList"
  proof
    fix a assume a: "a \<in> set P"
    from act a obtain m where "m \<in> set provList" "Version a = mVersion m" by auto
    then have "Version a \<in> mVersion ` set provList" by auto
    with act un a show "Direction a = Up \<and> Version a \<notin> set dbList \<and> Version a \<le> ver \<and>
           Version a \<in> mVersion ` set provList" by simp
  qed
  have ab: "\<forall>a\<in>set P. \<forall>m\<in>set ?ps. mVersion m \<in> set ?db \<and> mVersion m \<le> ver \<longrightarrow> mVersion m < Version a"
    by (rule plan_up_above_applied(2)[OF sorted_sort srt _ up]) simp
  show "\<forall>a\<in>set P. \<forall>v\<in>set dbList \<inter> mVersion ` set provList. v < Version a"
  proof (intro ballI)
    fix a v assume a: "a \<in> set P" and v: "v \<in> set dbList \<inter> mVersion ` set provList"
    then obtain m where m: "m \<in> set provList" "mVersion m = v" by auto
    have "v \<le> ver" using latest_applied_ge[of v dbList] v assms(2) by simp
    with ab a m v show "v < Version a" by auto
  qed
qed

lemma plan_down_empty_catalog: "plan_down [] ver vs acc = Inr acc"
  by (induction vs arbitrary: acc) (simp_all add: plan_down_Cons_sorted[of "[]"])

lemma backward_plan_shape:
  assumes "distinct dbList"
    and "ver < latest_applied dbList"
    and "plan (Inr provList) (Inr dbList) ver = Inr P"
  shows "sorted_wrt (>) (map Version P)"
    and "\<forall>a\<in>set P. Direction a = Down \<and> Version a \<in> set dbList \<and> ver < Version a \<and>
           Version a \<in> mVersion ` set provList"
proof -
  let ?ps = "sort_key mVersion provList"
  let ?db = "sort dbList"
  from plan_Inr_cases[OF assms(3)] assms(2)
  have "P = [] \<or> plan_down ?ps ver (rev ?db) [] = Inr P" by auto
  then have down: "plan_down ?ps ver (rev ?db) [] = Inr P"
  proof
    assume "P = []"
    with assms(2,3) show ?thesis
      by (cases "provList = []") (simp_all add: plan_unfold plan_down_empty_catalog)
  qed
  show "sorted_wrt (>) (map Version P)"
    by (rule plan_down_decreasing[OF sorted_sort_key strict_sorted_applied[OF assms(1)] _ _ down])
       simp_all
  have act: "\<forall>a\<in>set P. Direction a = Down \<and> ver < Version a \<and> Version a \<in> set (rev ?db) \<and>
      (\<exists>m\<in>set ?ps. Version a = mVersion m \<and> mDown m = Inr (Migration a))"
    using plan_down_actions[OF sorted_sort_key down] by simp
  show "\<forall>a\<in>set P. Direction a = Down \<and> Version a \<in> set dbList \<and> ver < Version a \<and>
           Version a \<in> mVersion ` set provList"
  proof
    fix a assume a: "a \<in> set P"
    from act a obtain m where "m \<in> set provList" "Version a = mVersion m" by auto
    then have "Version a \<in> mVersion ` set provList" by auto
    with act a show "Direction a = Down \<and> Version a \<in> set dbList \<and> ver < Version a \<and>
           Version a \<in> mVersion ` set provList" by simp
  qed
qed

text \<open>
  Claim C1 at the catalog \<open>{1, 2}\<close> with version 3 applied and target 5. Version 3 is the
  highest applied version and is not in the catalog. The walk never meets it, so nothing
  resets the actions, and the plan applies versions 1 and 2 below it. The claim asks every
  action of a forward plan to be above the highest applied version, and the comment at the
  reset of the source states the same aim. With the latest catalog version 2 as target, the
  plan is empty.
\<close>

theorem forward_plan_below_absent_applied_version:
  "plan (Inr [testMigration 1 ''up1'' ''down1'' [], testMigration 2 ''up2'' ''down2'' []]) (Inr [3]) 5 =
     Inr [\<lparr>Version = 1, Migration = ''up1'', Direction = Up\<rparr>,
          \<lparr>Version = 2, Migration = ''up2'', Direction = Up\<rparr>]
   \<and> CurrentVersion [3] = 3
   \<and> LatestVersion [testMigration 1 ''up1'' ''down1'' [], testMigration 2 ''up2'' ''down2'' []] = 2
   \<and> plan (Inr [testMigration 1 ''up1'' ''down1'' [], testMigration 2 ''up2'' ''down2'' []]) (Inr [3]) 2 =
     Inr []"
  by code_simp

section \<open>Planning again after a plan was carried out\<close>

lemma applied_after_Up:
  "\<forall>a\<in>set P. Direction a = Up \<Longrightarrow> applied_after db P = db @ map Version P"
  unfolding applied_after_def by (induction P arbitrary: db) simp_all

lemma applied_after_Down:
  "\<forall>a\<in>set P. Direction a = Down \<Longrightarrow> set (applied_after db P) = set db - Version ` set P"
  unfolding applied_after_def by (induction P arbitrary: db) auto

lemma plan_up_takeWhile:
  "plan_up db ver ms acc = plan_up db ver (takeWhile (\<lambda>m. mVersion m \<le> ver) ms) acc"
  by (induction ms arbitrary: acc) (simp_all add: plan_up_Cons split: sum.splits)

lemma plan_down_takeWhile:
  "plan_down ps ver vs acc = plan_down ps ver (takeWhile (\<lambda>v. ver < v) vs) acc"
  by (induction vs arbitrary: acc)
     (simp_all add: plan_down_Cons_found split: sum.splits option.splits)

lemma plan_up_single:
  "mVersion m \<le> ver \<Longrightarrow> plan_up db ver [m] acc = up_step db m acc"
  by (simp add: plan_up_Cons split: sum.splits)

lemma plan_up_fails_within:
  assumes "\<forall>x\<in>set ms. mVersion x \<le> ver" and "m \<in> set ms"
    and fail: "\<And>acc. \<exists>e. up_step db m acc = Inl e"
  shows "\<exists>e. plan_up db ver ms acc = Inl e"
proof -
  from assms(2) obtain pre post where ms: "ms = pre @ m # post"
    by (auto dest: split_list)
  have pre: "\<forall>x\<in>set pre. mVersion x \<le> ver" and m: "mVersion m \<le> ver"
    using assms(1) unfolding ms by auto
  show ?thesis
  proof (cases "plan_up db ver pre acc")
    case (Inl e)
    then show ?thesis unfolding ms by (simp add: plan_up_append[OF pre])
  next
    case (Inr a)
    from fail[of a] obtain e where "up_step db m a = Inl e" by auto
    with Inr m show ?thesis unfolding ms
      by (simp add: plan_up_append[OF pre] plan_up_Cons)
  qed
qed

lemma plan_up_error_applied:
  assumes db: "sorted db" "db \<noteq> []"
  shows "plan_up db ver ms acc = Inl e \<Longrightarrow>
    \<exists>m\<in>set ms. mVersion m \<le> ver \<and> mVersion m \<notin> set db \<and>
       (\<exists>err. mUp m = Inl err \<and> e = UnableToLoadUp (mVersion m) err)"
proof (induction ms arbitrary: acc)
  case Nil
  then show ?case by simp
next
  case (Cons pm ms)
  from Cons.prems have nb: "\<not> mVersion pm > ver" by (auto simp: plan_up_Cons split: if_splits)
  show ?case
  proof (cases "up_step db pm acc")
    case (Inl e')
    with Cons.prems nb have e: "e' = e" by (simp add: plan_up_Cons)
    from Inl db(2) have "mVersion pm \<notin> set db \<and>
       (\<exists>err. mUp pm = Inl err \<and> e' = UnableToLoadUp (mVersion pm) err)"
      by (auto simp: up_step_sorted[OF db(1)] split: if_splits sum.splits)
    with e nb show ?thesis by auto
  next
    case (Inr acc')
    with Cons.prems nb have "plan_up db ver ms acc' = Inl e" by (simp add: plan_up_Cons)
    from Cons.IH[OF this] show ?thesis by auto
  qed
qed

lemma plan_down_covers:
  assumes ps: "sorted (map mVersion ps)"
  shows "\<forall>v\<in>set vs. ver < v \<Longrightarrow> plan_down ps ver vs acc = Inr P \<Longrightarrow>
    set acc \<subseteq> set P \<and> (\<forall>v\<in>set vs. v \<in> mVersion ` set ps \<longrightarrow> v \<in> Version ` set P)"
proof (induction vs arbitrary: acc)
  case Nil
  then show ?case by simp
next
  case (Cons v vs)
  have gt: "ver < v" and rest: "\<forall>v\<in>set vs. ver < v" using Cons.prems(1) by auto
  show ?case
  proof (cases "find (\<lambda>m. mVersion m = v) ps")
    case None
    then have nv: "v \<notin> mVersion ` set ps" by (auto simp: find_None_iff)
    from None Cons.prems(2) gt have "plan_down ps ver vs acc = Inr P"
      by (simp add: plan_down_Cons_sorted[OF ps])
    from Cons.IH[OF rest this] nv show ?thesis by auto
  next
    case (Some pm)
    from Cons.prems(2) gt Some
    have "(case mDown pm of
              Inl err \<Rightarrow> Inl (UnableToLoadDown v err)
            | Inr d \<Rightarrow>
                plan_down ps ver vs (acc @ [\<lparr>Version = v, Migration = d, Direction = Down\<rparr>])) = Inr P"
      by (simp add: plan_down_Cons_sorted[OF ps])
    then obtain d where
      r: "plan_down ps ver vs (acc @ [\<lparr>Version = v, Migration = d, Direction = Down\<rparr>]) = Inr P"
      by (cases "mDown pm") simp_all
    from Cons.IH[OF rest r]
    have sub: "set (acc @ [\<lparr>Version = v, Migration = d, Direction = Down\<rparr>]) \<subseteq> set P"
      and cov: "\<forall>v\<in>set vs. v \<in> mVersion ` set ps \<longrightarrow> v \<in> Version ` set P"
      by auto
    from sub have "\<lparr>Version = v, Migration = d, Direction = Down\<rparr> \<in> set P" by simp
    then have "v \<in> Version ` set P" by force
    with sub cov show ?thesis by auto
  qed
qed

lemma plan_down_nothing_known:
  assumes ps: "sorted (map mVersion ps)"
  shows "\<forall>v\<in>set vs. ver < v \<longrightarrow> v \<notin> mVersion ` set ps \<Longrightarrow> plan_down ps ver vs acc = Inr acc"
proof (induction vs arbitrary: acc)
  case Nil
  then show ?case by simp
next
  case (Cons v vs)
  show ?case
  proof (cases "v \<le> ver")
    case True
    then show ?thesis by (simp add: plan_down_Cons_sorted[OF ps])
  next
    case False
    with Cons.prems have "v \<notin> mVersion ` set ps" by simp
    then have "find (\<lambda>m. mVersion m = v) ps = None" by (auto simp: find_None_iff)
    with False Cons show ?thesis by (simp add: plan_down_Cons_sorted[OF ps])
  qed
qed

lemma takeWhile_descending:
  fixes vs :: "int list"
  shows "sorted (rev vs) \<Longrightarrow> v \<in> set vs \<Longrightarrow> ver < v \<Longrightarrow> v \<in> set (takeWhile (\<lambda>x. ver < x) vs)"
proof (induction vs)
  case Nil
  then show ?case by simp
next
  case (Cons x xs)
  have le: "\<forall>y\<in>set xs. y \<le> x" and srt: "sorted (rev xs)"
    using Cons.prems(1) by (auto simp: sorted_append)
  show ?case
  proof (cases "v = x")
    case True
    with Cons.prems(3) show ?thesis by simp
  next
    case False
    with Cons.prems(2) have v: "v \<in> set xs" by simp
    with le Cons.prems(3) have "ver < x" by force
    with Cons.IH[OF srt v Cons.prems(3)] show ?thesis by simp
  qed
qed


lemma applied_after_Nil [simp]: "applied_after db [] = db"
  by (simp add: applied_after_def)

lemma latest_applied_le:
  "xs \<noteq> [] \<Longrightarrow> \<forall>v\<in>set xs. v \<le> c \<Longrightarrow> latest_applied xs \<le> c"
  by (simp add: latest_applied_def)

lemma replan_forward:
  assumes fw: "latest_applied dbList < ver"
    and P: "plan (Inr provList) (Inr dbList) ver = Inr P"
  shows "plan (Inr provList) (Inr (applied_after dbList P)) ver = Inr [] \<or>
         (dbList = [] \<and>
          (\<exists>m\<in>set provList. \<exists>err. mUp m = Inl err \<and>
             plan (Inr provList) (Inr (applied_after dbList P)) ver =
               Inl (UnableToLoadUp (mVersion m) err)))"
proof (cases "P = []")
  case True
  with P show ?thesis by simp
next
  case False
  let ?ps = "sort_key mVersion provList"
  let ?db = "sort dbList"
  let ?db' = "sort (applied_after dbList P)"
  let ?elig = "takeWhile (\<lambda>m. mVersion m \<le> ver) ?ps"
  have ne: "provList \<noteq> []" using P False by (auto simp: plan_unfold)
  have up: "plan_up ?db ver ?ps [] = Inr P" using P fw ne by (simp add: plan_unfold)
  have acts: "\<forall>a\<in>set P. Direction a = Up \<and> Version a \<le> ver"
    using plan_up_actions[OF up] by simp
  have after: "applied_after dbList P = dbList @ map Version P"
    using acts by (simp add: applied_after_Up)
  have "\<forall>v\<in>set (applied_after dbList P). v \<le> ver"
  proof
    fix v assume "v \<in> set (applied_after dbList P)"
    then consider "v \<in> set dbList" | "v \<in> Version ` set P" unfolding after by auto
    then show "v \<le> ver"
    proof cases
      case 1
      from latest_applied_ge[OF this] fw show ?thesis by simp
    next
      case 2
      with acts show ?thesis by auto
    qed
  qed
  moreover have "applied_after dbList P \<noteq> []" using False unfolding after by simp
  ultimately have le: "latest_applied (applied_after dbList P) \<le> ver"
    by (rule latest_applied_le[rotated])
  show ?thesis
  proof (cases "latest_applied (applied_after dbList P) = ver")
    case True
    then show ?thesis by (simp add: plan_unfold)
  next
    case lt: False
    with le have fw': "latest_applied (applied_after dbList P) < ver" by simp
    have plan2: "plan (Inr provList) (Inr (applied_after dbList P)) ver = plan_up ?db' ver ?elig []"
      using fw' ne plan_up_takeWhile[of ?db' ver ?ps "[]"] by (simp add: plan_unfold)
    have walk1: "plan_up ?db ver ?elig [] = Inr P"
      using up plan_up_takeWhile[of ?db ver ?ps "[]"] by simp
    have elig: "\<forall>m\<in>set ?elig. mVersion m \<le> ver" by (auto dest: set_takeWhileD)
    have "?elig \<noteq> []" using walk1 False by auto
    then obtain init lst where split: "?elig = init @ [lst]" by (metis rev_exhaust)
    have init: "\<forall>m\<in>set init. mVersion m \<le> ver" and lst: "mVersion lst \<le> ver"
      using elig unfolding split by auto
    have sub: "set init \<subseteq> set provList"
    proof
      fix m assume "m \<in> set init"
      then have "m \<in> set ?elig" unfolding split by simp
      then have "m \<in> set ?ps" by (rule set_takeWhileD[THEN conjunct1])
      then show "m \<in> set provList" by simp
    qed
    from walk1 have "(case plan_up ?db ver init [] of Inl err \<Rightarrow> Inl err
                      | Inr a \<Rightarrow> up_step ?db lst a) = Inr P"
      unfolding split by (simp add: plan_up_append[OF init] plan_up_single[OF lst] cong: sum.case_cong)
    then obtain a where a: "plan_up ?db ver init [] = Inr a" and s: "up_step ?db lst a = Inr P"
      by (cases "plan_up ?db ver init []") simp_all
    from up_step_shape[OF s] False have "mVersion lst \<in> Version ` set P" by force
    then have "mVersion lst \<in> set (applied_after dbList P)" unfolding after by simp
    then have reset: "up_step ?db' lst acc = Inr []" for acc
      by (simp add: up_step_sort)
    have walk2: "plan_up ?db' ver ?elig [] =
       (case plan_up ?db' ver init [] of Inl err \<Rightarrow> Inl err | Inr a \<Rightarrow> Inr [])"
      unfolding split by (simp add: plan_up_append[OF init] plan_up_single[OF lst] reset cong: sum.case_cong)
    show ?thesis
    proof (cases "plan_up ?db' ver init []")
      case (Inr a')
      with plan2 walk2 show ?thesis by simp
    next
      case (Inl e)
      have "?db' \<noteq> []" using \<open>applied_after dbList P \<noteq> []\<close> by simp
      from plan_up_error_applied[OF sorted_sort this Inl]
      obtain m err where m: "m \<in> set init" "mVersion m \<notin> set (applied_after dbList P)"
        "mUp m = Inl err" "e = UnableToLoadUp (mVersion m) err"
        by auto
      show ?thesis
      proof (cases "dbList = []")
        case True
        have "plan (Inr provList) (Inr (applied_after dbList P)) ver =
                Inl (UnableToLoadUp (mVersion m) err)"
          using plan2 walk2 Inl m(4) by simp
        with m(1,3) sub True show ?thesis by blast
      next
        case nonempty: False
        have "mVersion m \<notin> set dbList" using m(2) unfolding after by simp
        then have "\<exists>e. up_step ?db m acc = Inl e" for acc
          using nonempty m(3) by (simp add: up_step_sort)
        from plan_up_fails_within[OF init m(1) this, of "[]"] a show ?thesis by simp
      qed
    qed
  qed
qed

lemma replan_backward:
  assumes bw: "ver < latest_applied dbList"
    and P: "plan (Inr provList) (Inr dbList) ver = Inr P"
    and stay: "ver \<le> latest_applied (applied_after dbList P)"
  shows "plan (Inr provList) (Inr (applied_after dbList P)) ver = Inr []"
proof (cases "provList = []")
  case True
  then show ?thesis by (simp add: plan_unfold)
next
  case ne: False
  let ?ps = "sort_key mVersion provList"
  let ?db = "sort dbList"
  let ?db' = "sort (applied_after dbList P)"
  note srt = sorted_sort_key[of mVersion provList]
  have down: "plan_down ?ps ver (rev ?db) [] = Inr P" using P bw ne by (simp add: plan_unfold)
  have "\<forall>a\<in>set P. Direction a = Down" using plan_down_actions[OF srt down] by simp
  then have after: "set (applied_after dbList P) = set dbList - Version ` set P"
    by (rule applied_after_Down)
  have gt: "\<forall>v\<in>set (takeWhile (\<lambda>v. ver < v) (rev ?db)). ver < v"
    by (auto dest: set_takeWhileD)
  have "plan_down ?ps ver (takeWhile (\<lambda>v. ver < v) (rev ?db)) [] = Inr P"
    using down plan_down_takeWhile[of ?ps ver "rev ?db" "[]"] by simp
  from plan_down_covers[OF srt gt this]
  have cov: "\<forall>v\<in>set (takeWhile (\<lambda>v. ver < v) (rev ?db)). v \<in> mVersion ` set ?ps \<longrightarrow> v \<in> Version ` set P"
    by simp
  have unknown: "\<forall>v\<in>set (rev ?db'). ver < v \<longrightarrow> v \<notin> mVersion ` set ?ps"
  proof (intro ballI impI)
    fix v assume "v \<in> set (rev ?db')" and v: "ver < v"
    then have in_db: "v \<in> set dbList" and not_P: "v \<notin> Version ` set P" using after by auto
    have "v \<in> set (takeWhile (\<lambda>x. ver < x) (rev ?db))"
      by (rule takeWhile_descending) (use in_db v in simp_all)
    with cov not_P show "v \<notin> mVersion ` set ?ps" by blast
  qed
  have "plan_down ?ps ver (rev ?db') [] = Inr []"
    by (rule plan_down_nothing_known[OF srt unknown])
  with stay ne show ?thesis by (simp add: plan_unfold)
qed


text \<open>
  Claim C4, amended. Let planning succeed with the plan \<open>P\<close>, and let the applied versions
  be updated by \<open>P\<close> (\<open>applied_after\<close>: the version of each forward action added, that of
  each backward action removed). If the target was not below the current version, or the
  current version after the update is not below the target, then planning again with the
  same catalog and target gives the empty plan. One exception remains: when nothing was
  applied before, the second planning can fail on the forward text of a migration, which
  the first planning did not resolve because it took snapshots.
\<close>

theorem replanning_after_plan_is_empty:
  assumes "plan (Inr provList) (Inr dbList) ver = Inr P"
    and "latest_applied dbList \<le> ver \<or> ver \<le> latest_applied (applied_after dbList P)"
  shows "plan (Inr provList) (Inr (applied_after dbList P)) ver = Inr [] \<or>
         (dbList = [] \<and>
          (\<exists>m\<in>set provList. \<exists>err. mUp m = Inl err \<and>
             plan (Inr provList) (Inr (applied_after dbList P)) ver =
               Inl (UnableToLoadUp (mVersion m) err)))"
proof -
  consider (forward) "latest_applied dbList < ver" | (same) "latest_applied dbList = ver"
    | (backward) "ver < latest_applied dbList" by linarith
  then show ?thesis
  proof cases
    case forward
    then show ?thesis using assms(1) by (rule replan_forward)
  next
    case same
    with assms(1) have "P = []" by (simp add: plan_unfold split: if_splits)
    with assms(1) show ?thesis by simp
  next
    case backward
    with assms(2) have "ver \<le> latest_applied (applied_after dbList P)" by simp
    from replan_backward[OF backward assms(1) this] show ?thesis ..
  qed
qed

theorem replanning_after_plan_is_empty_witness:
  "plan (Inr [testMigration 1 ''up1'' ''down1'' [], testMigration 2 ''up2'' ''down2'' [],
              testMigration 3 ''up3'' ''down3'' [], testMigration 4 ''up4'' ''down4'' []])
        (Inr (applied_after [1, 3] [\<lparr>Version = 4, Migration = ''up4'', Direction = Up\<rparr>])) 4 = Inr []
   \<and> plan (Inr [testMigration 1 ''up1'' ''down1'' [], testMigration 2 ''up2'' ''down2'' [],
              testMigration 3 ''up3'' ''down3'' []])
        (Inr (applied_after [1, 2, 3] [\<lparr>Version = 3, Migration = ''down3'', Direction = Down\<rparr>,
                                        \<lparr>Version = 2, Migration = ''down2'', Direction = Down\<rparr>])) 1 = Inr []"
proof (intro conjI)
  let ?m1 = "testMigration 1 ''up1'' ''down1'' []"
  let ?m2 = "testMigration 2 ''up2'' ''down2'' []"
  let ?m3 = "testMigration 3 ''up3'' ''down3'' []"
  let ?m4 = "testMigration 4 ''up4'' ''down4'' []"
  have p1: "plan (Inr [?m1, ?m2, ?m3, ?m4]) (Inr [1, 3]) 4 =
              Inr [\<lparr>Version = 4, Migration = ''up4'', Direction = Up\<rparr>]"
    by code_simp
  have h1: "latest_applied [1, 3] \<le> 4 \<or>
            4 \<le> latest_applied (applied_after [1, 3] [\<lparr>Version = 4, Migration = ''up4'', Direction = Up\<rparr>])"
    by (simp add: latest_applied_def)
  from replanning_after_plan_is_empty[OF p1 h1]
  show "plan (Inr [?m1, ?m2, ?m3, ?m4])
          (Inr (applied_after [1, 3] [\<lparr>Version = 4, Migration = ''up4'', Direction = Up\<rparr>])) 4 = Inr []"
    by simp
  have p2: "plan (Inr [?m1, ?m2, ?m3]) (Inr [1, 2, 3]) 1 =
              Inr [\<lparr>Version = 3, Migration = ''down3'', Direction = Down\<rparr>,
                   \<lparr>Version = 2, Migration = ''down2'', Direction = Down\<rparr>]"
    by code_simp
  have h2: "latest_applied [1, 2, 3] \<le> 1 \<or>
            1 \<le> latest_applied (applied_after [1, 2, 3]
                   [\<lparr>Version = 3, Migration = ''down3'', Direction = Down\<rparr>,
                    \<lparr>Version = 2, Migration = ''down2'', Direction = Down\<rparr>])"
    by (simp add: latest_applied_def applied_after_def)
  from replanning_after_plan_is_empty[OF p2 h2]
  show "plan (Inr [?m1, ?m2, ?m3])
          (Inr (applied_after [1, 2, 3] [\<lparr>Version = 3, Migration = ''down3'', Direction = Down\<rparr>,
                                          \<lparr>Version = 2, Migration = ''down2'', Direction = Down\<rparr>])) 1 = Inr []"
    by simp
qed

text \<open>
  Claim C4 as stated fails in two ways. With the catalog \<open>{1, 2}\<close>, version 2 applied and
  target 1, the plan reverts 2; nothing is applied then, and planning again for target 1
  gives the forward action of version 1. With nothing applied, a first migration whose
  snapshot resolves and whose forward text fails, a second one with a snapshot, and target
  3, the plan is the snapshot of version 2; planning again meets the unapplied version 1,
  resolves its forward text and fails.
\<close>

theorem replanning_not_empty:
  "plan (Inr [testMigration 1 ''up1'' ''down1'' [], testMigration 2 ''up2'' ''down2'' []]) (Inr [2]) 1 =
     Inr [\<lparr>Version = 2, Migration = ''down2'', Direction = Down\<rparr>]
   \<and> applied_after [2] [\<lparr>Version = 2, Migration = ''down2'', Direction = Down\<rparr>] = []
   \<and> plan (Inr [testMigration 1 ''up1'' ''down1'' [], testMigration 2 ''up2'' ''down2'' []]) (Inr []) 1 =
     Inr [\<lparr>Version = 1, Migration = ''up1'', Direction = Up\<rparr>]
   \<and> plan (Inr [\<lparr>mVersion = 1, mUp = Inl (ExternalError ''unreadable''), mDown = Inr ''down1'',
                  mSnapshot = Inr ''snap1''\<rparr>,
                 testMigration 2 ''up2'' ''down2'' ''snap2'']) (Inr []) 3 =
     Inr [\<lparr>Version = 2, Migration = ''snap2'', Direction = Up\<rparr>]
   \<and> applied_after [] [\<lparr>Version = 2, Migration = ''snap2'', Direction = Up\<rparr>] = [2]
   \<and> plan (Inr [\<lparr>mVersion = 1, mUp = Inl (ExternalError ''unreadable''), mDown = Inr ''down1'',
                  mSnapshot = Inr ''snap1''\<rparr>,
                 testMigration 2 ''up2'' ''down2'' ''snap2'']) (Inr [2]) 3 =
     Inl (UnableToLoadUp 1 (ExternalError ''unreadable''))"
  by code_simp

section \<open>The executor halts at the first error\<close>

lemma Migrate_loop_Cons:
  "Migrate_loop drv s (a # actions) =
     (case apply_action drv a (sqldb s) of
        (d', Returns None) \<Rightarrow> Migrate_loop drv (s\<lparr>sqldb := d'\<rparr>) actions
      | (d', r) \<Rightarrow> (s\<lparr>sqldb := d'\<rparr>, r))"
  by (simp add: apply_action_def)

lemma Migrate_loop_append:
  "Migrate_loop drv s (xs @ ys) =
     (case Migrate_loop drv s xs of
        (s', Returns None) \<Rightarrow> Migrate_loop drv s' ys
      | (s', r) \<Rightarrow> (s', r))"
proof (induction xs arbitrary: s)
  case Nil
  then show ?case by simp
next
  case (Cons a xs)
  show ?case
    unfolding append_Cons Migrate_loop_Cons
    by (simp add: Cons.IH split: prod.splits option.splits outcome.splits)
qed

lemma transaction_rollback:
  assumes "beginTx drv \<noteq> None" and "transaction drv d fn = (d', Returns (Some err))"
  shows "d' = d"
  using assms by (auto simp: transaction_def split: option.splits prod.splits outcome.splits)

lemma apply_action_rollback:
  assumes "beginTx drv \<noteq> None" and "apply_action drv a d = (d', Returns (Some err))"
  shows "d' = d"
proof (cases "Direction a")
  case Up
  with assms(2) show ?thesis
    unfolding apply_action_def SQLDatabase_up_def
    using transaction_rollback[OF assms(1)] by simp
next
  case Down
  with assms(2) show ?thesis
    unfolding apply_action_def SQLDatabase_down_def
    using transaction_rollback[OF assms(1)] by simp
qed

lemma SQLDatabase_Migrate_append:
  assumes "SQLDatabase_Migrate drv s pre = (s1, Returns None)"
  shows "SQLDatabase_Migrate drv s (pre @ post) = Migrate_loop drv s1 post"
  using assms
  by (auto simp: SQLDatabase_Migrate_def Migrate_loop_append
      split: prod.splits option.splits outcome.splits)

lemma Migrate_halts_on_every_handle:
  assumes "SQLDatabase_Migrate drv s pre = (s1, Returns None)"
    and "apply_action drv a (sqldb s1) = (d2, Returns (Some err))"
  shows "SQLDatabase_Migrate drv s (pre @ a # post) = (s1\<lparr>sqldb := d2\<rparr>, Returns (Some err))"
proof -
  from assms(2) have "Migrate_loop drv s1 (a # post) = (s1\<lparr>sqldb := d2\<rparr>, Returns (Some err))"
    unfolding Migrate_loop_Cons by simp
  then show ?thesis
    using SQLDatabase_Migrate_append[OF assms(1), of "a # post"] by simp
qed

text \<open>
  Claim C5, for an action that fails by returning an error. When the actions \<open>pre\<close> are
  applied without error and the next action \<open>a\<close> returns the error \<open>err\<close>, \<^verbatim>\<open>Migrate\<close> on
  \<open>pre\<close>, \<open>a\<close> and any further actions \<open>post\<close> returns \<open>err\<close>, on every handle. The database
  is in the state that \<open>pre\<close> left, changed only by what the failing action left behind:
  what the earlier actions committed stays, and the result does not depend on \<open>post\<close>, for
  any driver, so that no action of \<open>post\<close> reaches it. On a handle that supports
  transactions the failing action leaves nothing behind: the state is the one that \<open>pre\<close>
  left.
\<close>

theorem Migrate_halts_at_first_failure:
  assumes "SQLDatabase_Migrate drv s pre = (s1, Returns None)"
    and "apply_action drv a (sqldb s1) = (d2, Returns (Some err))"
  shows "SQLDatabase_Migrate drv s (pre @ a # post) = (s1\<lparr>sqldb := d2\<rparr>, Returns (Some err))
     \<and> (beginTx drv \<noteq> None \<longrightarrow>
          d2 = sqldb s1 \<and>
          SQLDatabase_Migrate drv s (pre @ a # post) = (s1, Returns (Some err)))"
proof -
  have halt: "SQLDatabase_Migrate drv s (pre @ a # post) = (s1\<lparr>sqldb := d2\<rparr>, Returns (Some err))"
    using Migrate_halts_on_every_handle[OF assms] .
  have "d2 = sqldb s1" if "beginTx drv \<noteq> None"
    using apply_action_rollback[OF that assms(2)] .
  with halt show ?thesis by simp
qed

theorem Migrate_halts_at_first_failure_witness:
  "beginTx (mem_driver True (\<lambda>q. q = InsertMigration 2) (\<lambda>q. False)) \<noteq> None
   \<and> SQLDatabase_Migrate (mem_driver True (\<lambda>q. q = InsertMigration 2) (\<lambda>q. False))
         \<lparr>sqldb = \<lparr>rows = [], effects = []\<rparr>, inited = False\<rparr>
         [\<lparr>Version = 1, Migration = ''up1'', Direction = Up\<rparr>] =
       (\<lparr>sqldb = \<lparr>rows = [1], effects = [''up1'']\<rparr>, inited = True\<rparr>, Returns None)
   \<and> apply_action (mem_driver True (\<lambda>q. q = InsertMigration 2) (\<lambda>q. False))
         \<lparr>Version = 2, Migration = ''up2'', Direction = Up\<rparr> \<lparr>rows = [1], effects = [''up1'']\<rparr> =
       (\<lparr>rows = [1], effects = [''up1'']\<rparr>, Returns (Some (ExternalError ''exec failed'')))
   \<and> SQLDatabase_Migrate (mem_driver True (\<lambda>q. q = InsertMigration 2) (\<lambda>q. False))
         \<lparr>sqldb = \<lparr>rows = [], effects = []\<rparr>, inited = False\<rparr> example_actions =
       (\<lparr>sqldb = \<lparr>rows = [1], effects = [''up1'']\<rparr>, inited = True\<rparr>,
        Returns (Some (ExternalError ''exec failed'')))"
proof -
  let ?drv = "mem_driver True (\<lambda>q. q = InsertMigration 2) (\<lambda>q. False)"
  let ?s0 = "\<lparr>sqldb = \<lparr>rows = [], effects = []\<rparr>, inited = False\<rparr>"
  let ?s1 = "\<lparr>sqldb = \<lparr>rows = [1], effects = [''up1'']\<rparr>, inited = True\<rparr>"
  have tx: "beginTx ?drv \<noteq> None" by (simp add: mem_driver_def)
  have pre: "SQLDatabase_Migrate ?drv ?s0 [\<lparr>Version = 1, Migration = ''up1'', Direction = Up\<rparr>] =
      (?s1, Returns None)"
    by code_simp
  have fail: "apply_action ?drv \<lparr>Version = 2, Migration = ''up2'', Direction = Up\<rparr> (sqldb ?s1) =
      (\<lparr>rows = [1], effects = [''up1'']\<rparr>, Returns (Some (ExternalError ''exec failed'')))"
    by code_simp
  from Migrate_halts_at_first_failure[OF pre fail,
      of "[\<lparr>Version = 3, Migration = ''up3'', Direction = Up\<rparr>]"] tx
  have "SQLDatabase_Migrate ?drv ?s0 example_actions =
      (?s1, Returns (Some (ExternalError ''exec failed'')))"
    by (simp add: example_actions_def)
  with tx pre fail show ?thesis by simp
qed

text \<open>
  Claim C5 as stated fails for a handle without \<^verbatim>\<open>BeginTx\<close>, where \<^verbatim>\<open>transaction\<close> runs
  the two steps of an action directly on the handle. Of the three forward actions, the
  second fails at its bookkeeping step: the first action is applied, the third is not
  attempted and the error is returned, but the statement of the second action stays
  executed, although its version is not recorded.
\<close>

theorem failure_without_transaction_keeps_statement:
  "beginTx (mem_driver False (\<lambda>q. q = InsertMigration 2) (\<lambda>q. False)) = None
   \<and> SQLDatabase_Migrate (mem_driver False (\<lambda>q. q = InsertMigration 2) (\<lambda>q. False))
         \<lparr>sqldb = \<lparr>rows = [], effects = []\<rparr>, inited = False\<rparr>
         [\<lparr>Version = 1, Migration = ''up1'', Direction = Up\<rparr>] =
       (\<lparr>sqldb = \<lparr>rows = [1], effects = [''up1'']\<rparr>, inited = True\<rparr>, Returns None)
   \<and> apply_action (mem_driver False (\<lambda>q. q = InsertMigration 2) (\<lambda>q. False))
         \<lparr>Version = 2, Migration = ''up2'', Direction = Up\<rparr> \<lparr>rows = [1], effects = [''up1'']\<rparr> =
       (\<lparr>rows = [1], effects = [''up1'', ''up2'']\<rparr>, Returns (Some (ExternalError ''exec failed'')))
   \<and> SQLDatabase_Migrate (mem_driver False (\<lambda>q. q = InsertMigration 2) (\<lambda>q. False))
         \<lparr>sqldb = \<lparr>rows = [], effects = []\<rparr>, inited = False\<rparr> example_actions =
       (\<lparr>sqldb = \<lparr>rows = [1], effects = [''up1'', ''up2'']\<rparr>, inited = True\<rparr>,
        Returns (Some (ExternalError ''exec failed'')))"
  by code_simp

text \<open>
  A step that panics is not covered by the statements above. On a handle with
  \<^verbatim>\<open>BeginTx\<close> the deferred function of \<^verbatim>\<open>transaction\<close> recovers the panic and rolls back,
  but it stores the recovered value in the variable \<^verbatim>\<open>err\<close> of the inner block and not in
  the result, so \<^verbatim>\<open>transaction\<close> returns \<^verbatim>\<open>nil\<close> and \<^verbatim>\<open>Migrate\<close> goes on: of the three
  forward actions, with a panic in the statement of the second, the first and the third
  are applied and no error is returned. Without \<^verbatim>\<open>BeginTx\<close> the panic ends \<^verbatim>\<open>Migrate\<close>
  after the first action.
\<close>

lemma recovered_panic_is_not_returned:
  "SQLDatabase_Migrate (mem_driver True (\<lambda>q. False) (\<lambda>q. q = Statement ''up2''))
         \<lparr>sqldb = \<lparr>rows = [], effects = []\<rparr>, inited = False\<rparr> example_actions =
       (\<lparr>sqldb = \<lparr>rows = [1, 3], effects = [''up1'', ''up3'']\<rparr>, inited = True\<rparr>, Returns None)
   \<and> SQLDatabase_Migrate (mem_driver False (\<lambda>q. False) (\<lambda>q. q = Statement ''up2''))
         \<lparr>sqldb = \<lparr>rows = [], effects = []\<rparr>, inited = False\<rparr> example_actions =
       (\<lparr>sqldb = \<lparr>rows = [1], effects = [''up1'']\<rparr>, inited = True\<rparr>, Panics ''driver panic'')"
  by code_simp

section \<open>File names of the file-based provider\<close>

lemma Base_Join:
  assumes "name \<noteq> []" and "CHR ''/'' \<notin> set name"
  shows "Base (Join path name) = name"
proof -
  obtain c cs where rn: "rev name = c # cs"
    using assms(1) by (cases "rev name") auto
  have "c \<in> set (rev name)" unfolding rn by simp
  then have c: "c \<noteq> CHR ''/''" using assms(2) by auto
  have dw: "dropWhile (\<lambda>c. c = CHR ''/'') (rev name @ ys) = rev name @ ys" for ys
    unfolding rn using c by simp
  have all: "\<forall>x\<in>set (rev name). x \<noteq> CHR ''/''" using assms(2) by auto
  have tw: "takeWhile (\<lambda>c. c \<noteq> CHR ''/'') (rev name @ CHR ''/'' # xs) = rev name" for xs
    using all by (simp add: takeWhile_tail)
  have tw0: "takeWhile (\<lambda>c. c \<noteq> CHR ''/'') (rev name) = rev name"
    using all by simp
  show ?thesis
  proof (cases "path = []")
    case True
    then show ?thesis using assms(1)
      by (simp add: Base_def Join_def Let_def tw0 dw[of "[]", simplified])
  next
    case False
    then show ?thesis using assms(1)
      by (simp add: Base_def Join_def Let_def tw dw[of "CHR ''/'' # rev path"])
  qed
qed

lemma Split_from_no_sep: "sep \<notin> set s \<Longrightarrow> Split_from sep cur s = [rev cur @ s]"
  by (induction s arbitrary: cur) auto

lemma Split_from_sep:
  "sep \<notin> set a \<Longrightarrow> Split_from sep cur (a @ sep # b) = (rev cur @ a) # Split_from sep [] b"
  by (induction a arbitrary: cur) auto

lemma Split_from_length: "length (Split_from sep cur s) = Suc (count_list s sep)"
  by (induction s arbitrary: cur) simp_all

lemma Split_from_two:
  "Split_from sep cur s = [x, b] \<Longrightarrow>
     \<exists>a. x = rev cur @ a \<and> s = a @ sep # b \<and> sep \<notin> set a \<and> sep \<notin> set b"
proof (induction s arbitrary: cur)
  case Nil
  then show ?case by simp
next
  case (Cons c cs)
  show ?case
  proof (cases "c = sep")
    case True
    with Cons.prems have x: "x = rev cur" and r: "Split_from sep [] cs = [b]" by simp_all
    have "count_list cs sep = 0" using Split_from_length[of sep "[]" cs] r by simp
    then have ns: "sep \<notin> set cs" by (simp add: count_list_0_iff)
    with r have "b = cs" by (simp add: Split_from_no_sep)
    with x ns True show ?thesis by simp
  next
    case False
    with Cons.prems have "Split_from sep (c # cur) cs = [x, b]" by simp
    from Cons.IH[OF this] obtain a where
      "x = rev (c # cur) @ a" "cs = a @ sep # b" "sep \<notin> set a" "sep \<notin> set b" by auto
    with False show ?thesis by (intro exI[of _ "c # a"]) simp
  qed
qed

lemma Split_two_iff:
  "Split s sep = [a, b] \<longleftrightarrow> s = a @ sep # b \<and> sep \<notin> set a \<and> sep \<notin> set b"
proof
  assume "Split s sep = [a, b]"
  from Split_from_two[OF this[unfolded Split_def]] show "s = a @ sep # b \<and> sep \<notin> set a \<and> sep \<notin> set b"
    by simp
next
  assume "s = a @ sep # b \<and> sep \<notin> set a \<and> sep \<notin> set b"
  then show "Split s sep = [a, b]"
    by (simp add: Split_def Split_from_sep Split_from_no_sep)
qed

lemma SplitN_first: "SplitN s sep 2 ! 0 = takeWhile (\<lambda>c. c \<noteq> sep) s"
proof (cases "dropWhile (\<lambda>c. c \<noteq> sep) s")
  case Nil
  then have "\<forall>x\<in>set s. x \<noteq> sep" by simp
  then have tw: "takeWhile (\<lambda>c. c \<noteq> sep) s = s" by simp
  have "SplitN s sep 2 = [s]"
    unfolding numeral_2_eq_2 SplitN.simps Nil by simp
  then show ?thesis unfolding tw by simp
next
  case (Cons c cs)
  then show ?thesis by (simp add: numeral_2_eq_2)
qed

lemma length_two: "length p = 2 \<longleftrightarrow> (\<exists>a b. p = [a, b])"
  by (cases p; cases "tl p"; cases "tl (tl p)") auto

lemma parseFileName_plain:
  assumes "name \<noteq> []" and "CHR ''/'' \<notin> set name"
  shows "parseFileName (Join path name) = Some v \<longleftrightarrow>
     (\<exists>stem. name = stem @ ''.sql'' \<and> CHR ''.'' \<notin> set stem \<and>
        Atoi (takeWhile (\<lambda>c. c \<noteq> CHR ''_'') stem) = Some v)"
proof
  assume ok: "parseFileName (Join path name) = Some v"
  let ?p = "Split name (CHR ''.'')"
  from ok have len: "length ?p = 2" and ext: "?p ! 1 = ''sql''"
    and at: "Atoi (SplitN (?p ! 0) (CHR ''_'') 2 ! 0) = Some v"
    by (auto simp: parseFileName_def Base_Join[OF assms] Let_def split: if_splits option.splits)
  from len obtain a b where p: "?p = [a, b]" unfolding length_two by auto
  with ext have b: "b = ''sql''" by simp
  from p[unfolded Split_two_iff] b have "name = a @ ''.sql''" "CHR ''.'' \<notin> set a" by simp_all
  moreover from at p have "Atoi (takeWhile (\<lambda>c. c \<noteq> CHR ''_'') a) = Some v"
    by (simp add: SplitN_first)
  ultimately show "\<exists>stem. name = stem @ ''.sql'' \<and> CHR ''.'' \<notin> set stem \<and>
        Atoi (takeWhile (\<lambda>c. c \<noteq> CHR ''_'') stem) = Some v" by blast
next
  assume "\<exists>stem. name = stem @ ''.sql'' \<and> CHR ''.'' \<notin> set stem \<and>
        Atoi (takeWhile (\<lambda>c. c \<noteq> CHR ''_'') stem) = Some v"
  then obtain stem where s: "name = stem @ ''.sql''" "CHR ''.'' \<notin> set stem"
    "Atoi (takeWhile (\<lambda>c. c \<noteq> CHR ''_'') stem) = Some v" by auto
  have "Split name (CHR ''.'') = [stem, ''sql'']"
    unfolding Split_two_iff using s(1,2) by simp
  with s(3) show "parseFileName (Join path name) = Some v"
    by (simp add: parseFileName_def Base_Join[OF assms] Let_def SplitN_first)
qed

lemma isDigit_not_special:
  "isDigit c \<Longrightarrow> c \<noteq> CHR ''-'' \<and> c \<noteq> CHR ''+'' \<and> c \<noteq> CHR ''.'' \<and> c \<noteq> CHR ''_'' \<and> c \<noteq> CHR ''/''"
  by (auto simp: isDigit_def)

lemma digits_value_nonneg:
  "list_all isDigit ds \<Longrightarrow> 0 \<le> n \<Longrightarrow> 0 \<le> digits_value n ds"
  by (induction ds arbitrary: n) (auto simp: isDigit_def)

lemma Atoi_digits:
  assumes "ds \<noteq> []" and "list_all isDigit ds"
  shows "Atoi ds = (if digits_value 0 ds < 2 ^ 63 then Some (digits_value 0 ds) else None)"
    and "Atoi (CHR ''+'' # ds) = (if digits_value 0 ds < 2 ^ 63 then Some (digits_value 0 ds) else None)"
    and "Atoi (CHR ''-'' # ds) = (if digits_value 0 ds \<le> 2 ^ 63 then Some (- digits_value 0 ds) else None)"
proof -
  obtain c cs where ds: "ds = c # cs" using assms(1) by (cases ds) auto
  have c: "c \<noteq> CHR ''-''" "c \<noteq> CHR ''+''"
    using assms(2) isDigit_not_special[of c] by (simp_all add: ds)
  have nn: "0 \<le> digits_value 0 ds" using digits_value_nonneg[OF assms(2), of 0] by simp
  show "Atoi ds = (if digits_value 0 ds < 2 ^ 63 then Some (digits_value 0 ds) else None)"
    using assms nn c unfolding Atoi_def ds by (simp add: Let_def)
  show "Atoi (CHR ''+'' # ds) = (if digits_value 0 ds < 2 ^ 63 then Some (digits_value 0 ds) else None)"
    using assms nn unfolding Atoi_def by (simp add: Let_def)
  show "Atoi (CHR ''-'' # ds) = (if digits_value 0 ds \<le> 2 ^ 63 then Some (- digits_value 0 ds) else None)"
    using assms nn unfolding Atoi_def by (simp add: Let_def)
qed

lemma Atoi_chars:
  assumes "Atoi num = Some v"
  shows "num \<noteq> []" and "CHR ''.'' \<notin> set num" and "CHR ''_'' \<notin> set num" and "CHR ''/'' \<notin> set num"
proof -
  from assms obtain c cs where num: "num = c # cs" by (cases num) (auto simp: Atoi_def)
  show "num \<noteq> []" by (simp add: num)
  have all: "\<forall>x\<in>set num. isDigit x \<or> x = CHR ''-'' \<or> x = CHR ''+''"
    using assms unfolding Atoi_def num
    by (auto simp: Let_def list_all_iff split: if_splits)
  show "CHR ''.'' \<notin> set num" using all isDigit_not_special[of "CHR ''.''"] by auto
  show "CHR ''_'' \<notin> set num" using all isDigit_not_special[of "CHR ''_''"] by auto
  show "CHR ''/'' \<notin> set num" using all isDigit_not_special[of "CHR ''/''"] by auto
qed

lemma parseFileName_accepts:
  assumes "Atoi num = Some v" and "CHR ''.'' \<notin> set label" and "CHR ''/'' \<notin> set label"
  shows "parseFileName (Join path (num @ ''.sql'')) = Some v"
    and "parseFileName (Join path (num @ ''_'' @ label @ ''.sql'')) = Some v"
proof -
  note n = Atoi_chars[OF assms(1)]
  have tw: "takeWhile (\<lambda>c. c \<noteq> CHR ''_'') (num @ CHR ''_'' # xs) = num" for xs
    using n(3) by (auto simp: takeWhile_tail)
  have tw0: "takeWhile (\<lambda>c. c \<noteq> CHR ''_'') num = num"
    using n(3) by auto
  have "num @ ''.sql'' \<noteq> []" "CHR ''/'' \<notin> set (num @ ''.sql'')" using n by simp_all
  from parseFileName_plain[OF this, of path v]
  show "parseFileName (Join path (num @ ''.sql'')) = Some v"
    using n(2) assms(1) tw0 by auto
  have "num @ ''_'' @ label @ ''.sql'' \<noteq> []" "CHR ''/'' \<notin> set (num @ ''_'' @ label @ ''.sql'')"
    using n assms(3) by simp_all
  from parseFileName_plain[OF this, of path v]
  show "parseFileName (Join path (num @ ''_'' @ label @ ''.sql'')) = Some v"
    using n(2) assms(1,2) tw[of label]
    by (auto intro!: exI[of _ "num @ CHR ''_'' # label"])
qed

lemma parseFileName_accepted_shape:
  assumes "name \<noteq> []" and "CHR ''/'' \<notin> set name" and "parseFileName (Join path name) = Some v"
  shows "\<exists>num rest. name = num @ rest @ ''.sql'' \<and> Atoi num = Some v \<and>
           (rest = [] \<or> hd rest = CHR ''_'') \<and> CHR ''.'' \<notin> set rest"
proof -
  from assms(3)[unfolded parseFileName_plain[OF assms(1,2)]] obtain stem where
    s: "name = stem @ ''.sql''" "CHR ''.'' \<notin> set stem"
       "Atoi (takeWhile (\<lambda>c. c \<noteq> CHR ''_'') stem) = Some v" by auto
  let ?num = "takeWhile (\<lambda>c. c \<noteq> CHR ''_'') stem"
  let ?rest = "dropWhile (\<lambda>c. c \<noteq> CHR ''_'') stem"
  have "name = ?num @ ?rest @ ''.sql''" using s(1) by simp
  moreover have "?rest = [] \<or> hd ?rest = CHR ''_''"
    using hd_dropWhile[of "\<lambda>c. c \<noteq> CHR ''_''" stem] by auto
  moreover have "CHR ''.'' \<notin> set ?rest" using s(2) set_dropWhileD by fastforce
  ultimately show ?thesis using s(3) by blast
qed

lemma List_loop_eq:
  "List_loop path dir ms =
     (if \<forall>e\<in>set dir. IsDir e \<or> parseFileName (Join path (Name e)) \<noteq> None then
        Inr (ms @ map (\<lambda>e. \<lparr>filepath = Join path (Name e),
                            version = the (parseFileName (Join path (Name e))),
                            isRead = False, up = [], down = [], snapshot = []\<rparr>)
                   (filter (\<lambda>e. \<not> IsDir e) dir))
      else Inl InvalidFileName)"
proof (induction dir arbitrary: ms)
  case Nil
  then show ?case by simp
next
  case (Cons e dir)
  show ?case
  proof (cases "IsDir e")
    case True
    then show ?thesis by (simp add: Cons.IH)
  next
    case False
    show ?thesis
    proof (cases "parseFileName (Join path (Name e))")
      case None
      with False show ?thesis by (simp add: Let_def)
    next
      case (Some v)
      with False show ?thesis by (simp add: Let_def Cons.IH)
    qed
  qed
qed

text \<open>
  Claim C9, with the extension \<^verbatim>\<open>sql\<close> and the integer read by \<^verbatim>\<open>strconv.Atoi\<close>. In a
  directory \<open>path\<close>:
  \<^item> an entry named \<open>num.sql\<close> or \<open>num_label.sql\<close>, where \<^verbatim>\<open>Atoi\<close> reads \<open>num\<close> as \<open>v\<close> and the
    label has no dot, is accepted with version \<open>v\<close>;
  \<^item> every accepted entry name has this form: an integer, then nothing or an underscore
    and a label without dot, then \<^verbatim>\<open>.sql\<close>;
  \<^item> \<^verbatim>\<open>Atoi\<close> reads an optional sign and one or more decimal digits whose value fits a
    64-bit integer;
  \<^item> \<^verbatim>\<open>List\<close> skips directories; when all other entries are accepted it returns one
    migration for each, in the order of the listing, with the version read from the name;
    otherwise it returns the error ``invalid file name'' and no migration.
\<close>

theorem sql_file_name_convention:
  "(\<forall>num label v. Atoi num = Some v \<and> CHR ''.'' \<notin> set label \<and> CHR ''/'' \<notin> set label \<longrightarrow>
      parseFileName (Join path (num @ ''.sql'')) = Some v \<and>
      parseFileName (Join path (num @ ''_'' @ label @ ''.sql'')) = Some v)
   \<and> (\<forall>name v. name \<noteq> [] \<and> CHR ''/'' \<notin> set name \<and> parseFileName (Join path name) = Some v \<longrightarrow>
        (\<exists>num rest. name = num @ rest @ ''.sql'' \<and> Atoi num = Some v \<and>
           (rest = [] \<or> hd rest = CHR ''_'') \<and> CHR ''.'' \<notin> set rest))
   \<and> (\<forall>ds. ds \<noteq> [] \<and> list_all isDigit ds \<longrightarrow>
        Atoi ds = (if digits_value 0 ds < 2 ^ 63 then Some (digits_value 0 ds) else None) \<and>
        Atoi (CHR ''+'' # ds) = (if digits_value 0 ds < 2 ^ 63 then Some (digits_value 0 ds) else None) \<and>
        Atoi (CHR ''-'' # ds) = (if digits_value 0 ds \<le> 2 ^ 63 then Some (- digits_value 0 ds) else None))
   \<and> FilesystemProvider_List path (Inr dir) =
       (if \<forall>e\<in>set dir. IsDir e \<or> parseFileName (Join path (Name e)) \<noteq> None then
          Inr (map (\<lambda>e. \<lparr>filepath = Join path (Name e),
                         version = the (parseFileName (Join path (Name e))),
                         isRead = False, up = [], down = [], snapshot = []\<rparr>)
                 (filter (\<lambda>e. \<not> IsDir e) dir))
        else Inl InvalidFileName)"
proof -
  have 1: "\<forall>num label v. Atoi num = Some v \<and> CHR ''.'' \<notin> set label \<and> CHR ''/'' \<notin> set label \<longrightarrow>
      parseFileName (Join path (num @ ''.sql'')) = Some v \<and>
      parseFileName (Join path (num @ ''_'' @ label @ ''.sql'')) = Some v"
    using parseFileName_accepts by blast
  have 2: "\<forall>name v. name \<noteq> [] \<and> CHR ''/'' \<notin> set name \<and> parseFileName (Join path name) = Some v \<longrightarrow>
        (\<exists>num rest. name = num @ rest @ ''.sql'' \<and> Atoi num = Some v \<and>
           (rest = [] \<or> hd rest = CHR ''_'') \<and> CHR ''.'' \<notin> set rest)"
    using parseFileName_accepted_shape by blast
  have 3: "\<forall>ds. ds \<noteq> [] \<and> list_all isDigit ds \<longrightarrow>
        Atoi ds = (if digits_value 0 ds < 2 ^ 63 then Some (digits_value 0 ds) else None) \<and>
        Atoi (CHR ''+'' # ds) = (if digits_value 0 ds < 2 ^ 63 then Some (digits_value 0 ds) else None) \<and>
        Atoi (CHR ''-'' # ds) = (if digits_value 0 ds \<le> 2 ^ 63 then Some (- digits_value 0 ds) else None)"
    using Atoi_digits by blast
  have 4: "FilesystemProvider_List path (Inr dir) =
       (if \<forall>e\<in>set dir. IsDir e \<or> parseFileName (Join path (Name e)) \<noteq> None then
          Inr (map (\<lambda>e. \<lparr>filepath = Join path (Name e),
                         version = the (parseFileName (Join path (Name e))),
                         isRead = False, up = [], down = [], snapshot = []\<rparr>)
                 (filter (\<lambda>e. \<not> IsDir e) dir))
        else Inl InvalidFileName)"
    unfolding FilesystemProvider_List_def by (simp add: List_loop_eq[of path dir "[]", simplified])
  from 1 2 3 4 show ?thesis by (intro conjI)
qed

theorem sql_file_name_convention_witness:
  "Atoi ''1'' = Some 1
   \<and> parseFileName (Join ''testdata'' ''1_init.sql'') = Some 1
   \<and> parseFileName (Join ''testdata'' ''1.sql'') = Some 1
   \<and> FilesystemProvider_List ''testdata''
         (Inr [\<lparr>Name = ''1_init.sql'', IsDir = False\<rparr>, \<lparr>Name = ''old'', IsDir = True\<rparr>,
               \<lparr>Name = ''2.sql'', IsDir = False\<rparr>]) =
       Inr [\<lparr>filepath = ''testdata/1_init.sql'', version = 1, isRead = False,
              up = [], down = [], snapshot = []\<rparr>,
            \<lparr>filepath = ''testdata/2.sql'', version = 2, isRead = False,
              up = [], down = [], snapshot = []\<rparr>]"
proof -
  let ?dir = "[\<lparr>Name = ''1_init.sql'', IsDir = False\<rparr>, \<lparr>Name = ''old'', IsDir = True\<rparr>,
               \<lparr>Name = ''2.sql'', IsDir = False\<rparr>]"
  note conv = sql_file_name_convention[of "''testdata''" ?dir]
  have a: "Atoi ''1'' = Some 1" by code_simp
  have l: "CHR ''.'' \<notin> set ''init''" "CHR ''/'' \<notin> set ''init''" by simp_all
  from conv have "Atoi ''1'' = Some 1 \<and> CHR ''.'' \<notin> set ''init'' \<and> CHR ''/'' \<notin> set ''init'' \<longrightarrow>
      parseFileName (Join ''testdata'' (''1'' @ ''.sql'')) = Some 1 \<and>
      parseFileName (Join ''testdata'' (''1'' @ ''_'' @ ''init'' @ ''.sql'')) = Some 1"
    by blast
  with a l have p: "parseFileName (Join ''testdata'' ''1_init.sql'') = Some 1"
    "parseFileName (Join ''testdata'' ''1.sql'') = Some 1" by simp_all
  have ev: "(if \<forall>e\<in>set ?dir. IsDir e \<or> parseFileName (Join ''testdata'' (Name e)) \<noteq> None then
          Inr (map (\<lambda>e. \<lparr>filepath = Join ''testdata'' (Name e),
                         version = the (parseFileName (Join ''testdata'' (Name e))),
                         isRead = False, up = [], down = [], snapshot = []\<rparr>)
                 (filter (\<lambda>e. \<not> IsDir e) ?dir))
        else Inl InvalidFileName) =
       Inr [\<lparr>filepath = ''testdata/1_init.sql'', version = 1, isRead = False,
              up = [], down = [], snapshot = []\<rparr>,
            \<lparr>filepath = ''testdata/2.sql'', version = 2, isRead = False,
              up = [], down = [], snapshot = []\<rparr>]"
    by code_simp
  from conv have "FilesystemProvider_List ''testdata'' (Inr ?dir) =
       (if \<forall>e\<in>set ?dir. IsDir e \<or> parseFileName (Join ''testdata'' (Name e)) \<noteq> None then
          Inr (map (\<lambda>e. \<lparr>filepath = Join ''testdata'' (Name e),
                         version = the (parseFileName (Join ''testdata'' (Name e))),
                         isRead = False, up = [], down = [], snapshot = []\<rparr>)
                 (filter (\<lambda>e. \<not> IsDir e) ?dir))
        else Inl InvalidFileName)"
    by blast
  from this ev have "FilesystemProvider_List ''testdata'' (Inr ?dir) =
       Inr [\<lparr>filepath = ''testdata/1_init.sql'', version = 1, isRead = False,
              up = [], down = [], snapshot = []\<rparr>,
            \<lparr>filepath = ''testdata/2.sql'', version = 2, isRead = False,
              up = [], down = [], snapshot = []\<rparr>]"
    by (rule trans)
  with a p show ?thesis by (intro conjI)
qed

text \<open>
  Claim C9 as stated fails: \<^verbatim>\<open>1_init.txt\<close> is an integer, a label, a dot and an extension,
  and \<^verbatim>\<open>9223372036854775808_big.sql\<close> starts with an integer, but \<^verbatim>\<open>parseFileName\<close> rejects
  both, the first for its extension and the second because the integer does not fit 64
  bits; a directory that holds such a file cannot be listed.
\<close>

theorem file_name_with_other_extension_rejected:
  "Atoi ''1'' = Some 1
   \<and> parseFileName (Join ''testdata'' ''1_init.txt'') = None
   \<and> parseFileName (Join ''testdata'' ''9223372036854775808_big.sql'') = None
   \<and> FilesystemProvider_List ''testdata''
         (Inr [\<lparr>Name = ''1_init.txt'', IsDir = False\<rparr>]) = Inl InvalidFileName
   \<and> FilesystemProvider_List ''testdata''
         (Inr [\<lparr>Name = ''1_init.sql'', IsDir = False\<rparr>,
               \<lparr>Name = ''9223372036854775808_big.sql'', IsDir = False\<rparr>]) = Inl InvalidFileName"
  by code_simp

end
